theory Spec2Isabelle
  imports Main
begin

section \<open>Grids, errors and the randomness source\<close>

text \<open>
  A grid is the Python value \<^verbatim>\<open>List[List[int]]\<close>: a list of rows of unbounded integers,
  \<open>0\<close> for an empty cell. Nothing in the type forces the shape 9x9, so every indexed read
  and write is modelled with the \<^verbatim>\<open>IndexError\<close> Python raises out of range. Row and
  column indices always come from \<^verbatim>\<open>range(...)\<close>, so they are naturals.
\<close>

type_synonym grid = "int list list"

datatype validation_error =
    InvalidValue int nat nat
  | DuplicateRow nat
  | DuplicateColumn nat
  | DuplicateBox nat nat

datatype error =
    IndexError
  | KeyError string
  | ValueError validation_error
  | RuntimeError string

text \<open>
  A computation that recurses carries a depth budget: \<open>None\<close> means the budget of stack
  frames ran out, \<open>Some (Inl e)\<close> that the exception \<open>e\<close> was raised, \<open>Some (Inr v)\<close>
  that \<open>v\<close> was returned.
\<close>

type_synonym 'a result = "(error + 'a) option"

definition get_row :: "grid \<Rightarrow> nat \<Rightarrow> error + int list" where
  "get_row grid r = (if r < length grid then Inr (grid ! r) else Inl IndexError)"

definition get_cell :: "grid \<Rightarrow> nat \<Rightarrow> nat \<Rightarrow> error + int" where
  "get_cell grid r c =
     (case get_row grid r of
        Inl e \<Rightarrow> Inl e
      | Inr row \<Rightarrow> if c < length row then Inr (row ! c) else Inl IndexError)"

definition set_cell :: "grid \<Rightarrow> nat \<Rightarrow> nat \<Rightarrow> int \<Rightarrow> error + grid" where
  "set_cell grid r c v =
     (case get_row grid r of
        Inl e \<Rightarrow> Inl e
      | Inr row \<Rightarrow> if c < length row then Inr (grid[r := row[c := v]]) else Inl IndexError)"

text \<open>\<^verbatim>\<open>[row[:] for row in grid]\<close>: a fresh copy, equal to the original as a value.\<close>

definition copy_grid :: "grid \<Rightarrow> grid" where
  "copy_grid grid = [row. row \<leftarrow> grid]"

text \<open>\<^verbatim>\<open>[(r, c) for r in range(9) for c in range(9)]\<close>, the row-major scan order.\<close>

definition cells :: "(nat \<times> nat) list" where
  "cells = [(r, c). r \<leftarrow> [0..<9], c \<leftarrow> [0..<9]]"

text \<open>
  The module \<^verbatim>\<open>random\<close> is global state. It is modelled as an explicit source: the
  outcome of the \<open>k\<close>-th call of \<^verbatim>\<open>random.sample(range(1, 10), 9)\<close> and of the \<open>k\<close>-th
  call of \<^verbatim>\<open>random.shuffle(cells)\<close>, with the number of calls made so far.
\<close>

record rng =
  samples :: "nat \<Rightarrow> int list"
  shuffles :: "nat \<Rightarrow> (nat \<times> nat) list"
  sample_pos :: nat
  shuffle_pos :: nat

definition random_sample :: "rng \<Rightarrow> int list \<times> rng" where
  "random_sample g = (samples g (sample_pos g), g\<lparr>sample_pos := Suc (sample_pos g)\<rparr>)"

definition random_shuffle :: "rng \<Rightarrow> (nat \<times> nat) list \<times> rng" where
  "random_shuffle g = (shuffles g (shuffle_pos g), g\<lparr>shuffle_pos := Suc (shuffle_pos g)\<rparr>)"

text \<open>
  The library's contract: a sample of size 9 of \<^verbatim>\<open>range(1, 10)\<close> is a permutation of the
  digits 1 to 9, and a shuffle of the 81 cells is a permutation of them.
\<close>

definition wf_rng :: "rng \<Rightarrow> bool" where
  "wf_rng g \<longleftrightarrow>
     (\<forall>k. distinct (samples g k) \<and> set (samples g k) = {1..9}) \<and>
     (\<forall>k. distinct (shuffles g k) \<and> set (shuffles g k) = set cells)"

section \<open>Solver primitives\<close>

text \<open>
  \<^verbatim>\<open>find_empty\<close> (the same in both files): the first cell equal to 0 in row-major order.
\<close>

fun find_empty_in :: "grid \<Rightarrow> (nat \<times> nat) list \<Rightarrow> error + (nat \<times> nat) option" where
  "find_empty_in grid [] = Inr None"
| "find_empty_in grid ((r, c) # rest) =
     (case get_cell grid r c of
        Inl e \<Rightarrow> Inl e
      | Inr v \<Rightarrow> if v = 0 then Inr (Some (r, c)) else find_empty_in grid rest)"

definition find_empty :: "grid \<Rightarrow> error + (nat \<times> nat) option" where
  "find_empty grid = find_empty_in grid cells"

text \<open>The scanning loops of \<^verbatim>\<open>is_valid_move\<close>: is some listed cell equal to \<open>num\<close>?\<close>

fun any_cell_eq :: "grid \<Rightarrow> (nat \<times> nat) list \<Rightarrow> int \<Rightarrow> error + bool" where
  "any_cell_eq grid [] num = Inr False"
| "any_cell_eq grid ((r, c) # rest) num =
     (case get_cell grid r c of
        Inl e \<Rightarrow> Inl e
      | Inr v \<Rightarrow> if v = num then Inr True else any_cell_eq grid rest num)"

definition is_valid_move :: "grid \<Rightarrow> nat \<Rightarrow> nat \<Rightarrow> int \<Rightarrow> error + bool" where
  "is_valid_move grid row col num =
     (case get_row grid row of
        Inl e \<Rightarrow> Inl e
      | Inr rw \<Rightarrow>
          if num \<in> set rw then Inr False
          else
            (case any_cell_eq grid [(r, col). r \<leftarrow> [0..<9]] num of
               Inl e \<Rightarrow> Inl e
             | Inr True \<Rightarrow> Inr False
             | Inr False \<Rightarrow>
                 (let br = (row div 3) * 3; bc = (col div 3) * 3 in
                  case any_cell_eq grid [(r, c). r \<leftarrow> [br..<br + 3], c \<leftarrow> [bc..<bc + 3]] num of
                    Inl e \<Rightarrow> Inl e
                  | Inr True \<Rightarrow> Inr False
                  | Inr False \<Rightarrow> Inr True)))"

section \<open>The three backtracking searches\<close>

text \<open>
  \<^verbatim>\<open>solve_sudoku\<close> of \<^verbatim>\<open>solve_sudoku.py\<close>: ascending candidates, first solution,
  \<open>stats\<close> counts every validity test. The grid is mutated in place, so the model returns
  the grid as the call leaves it.
\<close>

fun solve_sudoku :: "nat \<Rightarrow> grid \<Rightarrow> int \<Rightarrow> (bool \<times> grid \<times> int) result"
  and solve_sudoku_loop ::
    "nat \<Rightarrow> nat \<Rightarrow> nat \<Rightarrow> int list \<Rightarrow> grid \<Rightarrow> int \<Rightarrow> (bool \<times> grid \<times> int) result"
where
  "solve_sudoku 0 grid stats = None"
| "solve_sudoku (Suc n) grid stats =
     (case find_empty grid of
        Inl e \<Rightarrow> Some (Inl e)
      | Inr None \<Rightarrow> Some (Inr (True, grid, stats))
      | Inr (Some (row, col)) \<Rightarrow> solve_sudoku_loop n row col [1..9] grid stats)"
| "solve_sudoku_loop n row col [] grid stats = Some (Inr (False, grid, stats))"
| "solve_sudoku_loop n row col (num # nums) grid stats =
     (case is_valid_move grid row col num of
        Inl e \<Rightarrow> Some (Inl e)
      | Inr False \<Rightarrow> solve_sudoku_loop n row col nums grid (stats + 1)
      | Inr True \<Rightarrow>
          (case set_cell grid row col num of
             Inl e \<Rightarrow> Some (Inl e)
           | Inr grid1 \<Rightarrow>
               (case solve_sudoku n grid1 (stats + 1) of
                  None \<Rightarrow> None
                | Some (Inl e) \<Rightarrow> Some (Inl e)
                | Some (Inr (True, grid2, stats2)) \<Rightarrow> Some (Inr (True, grid2, stats2))
                | Some (Inr (False, grid2, stats2)) \<Rightarrow>
                    (case set_cell grid2 row col 0 of
                       Inl e \<Rightarrow> Some (Inl e)
                     | Inr grid3 \<Rightarrow> solve_sudoku_loop n row col nums grid3 stats2))))"

text \<open>
  \<^verbatim>\<open>solve_sudoku_with_stats\<close> of \<^verbatim>\<open>generate_sudoku.py\<close>: the candidates of each call
  are a fresh \<^verbatim>\<open>random.sample\<close>, \<open>stats\<close> counts the placements (nodes).
\<close>

fun solve_sudoku_with_stats :: "nat \<Rightarrow> grid \<Rightarrow> int \<Rightarrow> rng \<Rightarrow> (bool \<times> grid \<times> int \<times> rng) result"
  and solve_sudoku_with_stats_loop ::
    "nat \<Rightarrow> nat \<Rightarrow> nat \<Rightarrow> int list \<Rightarrow> grid \<Rightarrow> int \<Rightarrow> rng \<Rightarrow> (bool \<times> grid \<times> int \<times> rng) result"
where
  "solve_sudoku_with_stats 0 grid stats g = None"
| "solve_sudoku_with_stats (Suc n) grid stats g =
     (case find_empty grid of
        Inl e \<Rightarrow> Some (Inl e)
      | Inr None \<Rightarrow> Some (Inr (True, grid, stats, g))
      | Inr (Some (row, col)) \<Rightarrow>
          (case random_sample g of
             (nums, g1) \<Rightarrow> solve_sudoku_with_stats_loop n row col nums grid stats g1))"
| "solve_sudoku_with_stats_loop n row col [] grid stats g = Some (Inr (False, grid, stats, g))"
| "solve_sudoku_with_stats_loop n row col (num # nums) grid stats g =
     (case is_valid_move grid row col num of
        Inl e \<Rightarrow> Some (Inl e)
      | Inr False \<Rightarrow> solve_sudoku_with_stats_loop n row col nums grid stats g
      | Inr True \<Rightarrow>
          (case set_cell grid row col num of
             Inl e \<Rightarrow> Some (Inl e)
           | Inr grid1 \<Rightarrow>
               (case solve_sudoku_with_stats n grid1 (stats + 1) g of
                  None \<Rightarrow> None
                | Some (Inl e) \<Rightarrow> Some (Inl e)
                | Some (Inr (True, grid2, stats2, g2)) \<Rightarrow> Some (Inr (True, grid2, stats2, g2))
                | Some (Inr (False, grid2, stats2, g2)) \<Rightarrow>
                    (case set_cell grid2 row col 0 of
                       Inl e \<Rightarrow> Some (Inl e)
                     | Inr grid3 \<Rightarrow>
                         solve_sudoku_with_stats_loop n row col nums grid3 stats2 g2))))"

text \<open>
  \<^verbatim>\<open>count_solutions\<close>: ascending candidates, the running \<open>count\<close> is returned as soon as
  it is at least \<open>limit\<close>.
\<close>

fun count_solutions :: "nat \<Rightarrow> grid \<Rightarrow> int \<Rightarrow> (int \<times> grid) result"
  and count_solutions_loop ::
    "nat \<Rightarrow> nat \<Rightarrow> nat \<Rightarrow> int list \<Rightarrow> grid \<Rightarrow> int \<Rightarrow> int \<Rightarrow> (int \<times> grid) result"
where
  "count_solutions 0 grid limit = None"
| "count_solutions (Suc n) grid limit =
     (case find_empty grid of
        Inl e \<Rightarrow> Some (Inl e)
      | Inr None \<Rightarrow> Some (Inr (1, grid))
      | Inr (Some (row, col)) \<Rightarrow> count_solutions_loop n row col [1..9] grid limit 0)"
| "count_solutions_loop n row col [] grid limit count = Some (Inr (count, grid))"
| "count_solutions_loop n row col (num # nums) grid limit count =
     (case is_valid_move grid row col num of
        Inl e \<Rightarrow> Some (Inl e)
      | Inr False \<Rightarrow> count_solutions_loop n row col nums grid limit count
      | Inr True \<Rightarrow>
          (case set_cell grid row col num of
             Inl e \<Rightarrow> Some (Inl e)
           | Inr grid1 \<Rightarrow>
               (case count_solutions n grid1 limit of
                  None \<Rightarrow> None
                | Some (Inl e) \<Rightarrow> Some (Inl e)
                | Some (Inr (k, grid2)) \<Rightarrow>
                    (case set_cell grid2 row col 0 of
                       Inl e \<Rightarrow> Some (Inl e)
                     | Inr grid3 \<Rightarrow>
                         if count + k \<ge> limit then Some (Inr (count + k, grid3))
                         else count_solutions_loop n row col nums grid3 limit (count + k)))))"

section \<open>The generator\<close>

definition DIFFICULTY_CLUES :: "string \<rightharpoonup> int" where
  "DIFFICULTY_CLUES =
     map_of [(''easy'', 40), (''medium'', 32), (''hard'', 25), (''extreme'', 21)]"

text \<open>
  \<^verbatim>\<open>generate_full_grid\<close> starts from the all-empty grid and returns the grid as the
  randomized search leaves it; the boolean the search returns is dropped, as in the source.
\<close>

definition generate_full_grid :: "nat \<Rightarrow> rng \<Rightarrow> (grid \<times> rng) result" where
  "generate_full_grid depth g =
     (let grid = replicate 9 (replicate 9 0) in
      case solve_sudoku_with_stats depth grid 0 g of
        None \<Rightarrow> None
      | Some (Inl e) \<Rightarrow> Some (Inl e)
      | Some (Inr (found, grid', nodes, g')) \<Rightarrow> Some (Inr (grid', g')))"

text \<open>
  The removal loop of \<^verbatim>\<open>generate_puzzle_base\<close> over the shuffled cells: \<open>break\<close> once
  the clue target is reached, otherwise clear the cell, count the solutions of a copy, and
  restore the digit unless the count is exactly 1.
\<close>

fun generate_puzzle_base_loop ::
  "nat \<Rightarrow> int \<Rightarrow> (nat \<times> nat) list \<Rightarrow> grid \<Rightarrow> int \<Rightarrow> grid result"
where
  "generate_puzzle_base_loop depth clues [] puzzle removed = Some (Inr puzzle)"
| "generate_puzzle_base_loop depth clues ((r, c) # rest) puzzle removed =
     (if 81 - removed \<le> clues then Some (Inr puzzle)
      else
        (case get_cell puzzle r c of
           Inl e \<Rightarrow> Some (Inl e)
         | Inr backup \<Rightarrow>
             (case set_cell puzzle r c 0 of
                Inl e \<Rightarrow> Some (Inl e)
              | Inr puzzle1 \<Rightarrow>
                  (case count_solutions depth (copy_grid puzzle1) 2 of
                     None \<Rightarrow> None
                   | Some (Inl e) \<Rightarrow> Some (Inl e)
                   | Some (Inr (k, test)) \<Rightarrow>
                       if k \<noteq> 1 then
                         (case set_cell puzzle1 r c backup of
                            Inl e \<Rightarrow> Some (Inl e)
                          | Inr puzzle2 \<Rightarrow>
                              generate_puzzle_base_loop depth clues rest puzzle2 removed)
                       else generate_puzzle_base_loop depth clues rest puzzle1 (removed + 1)))))"

definition generate_puzzle_base :: "nat \<Rightarrow> string \<Rightarrow> rng \<Rightarrow> (grid \<times> rng) result" where
  "generate_puzzle_base depth difficulty g =
     (case DIFFICULTY_CLUES difficulty of
        None \<Rightarrow> Some (Inl (KeyError difficulty))
      | Some clues \<Rightarrow>
          (case generate_full_grid depth g of
             None \<Rightarrow> None
           | Some (Inl e) \<Rightarrow> Some (Inl e)
           | Some (Inr (full, g1)) \<Rightarrow>
               (case random_shuffle g1 of
                  (shuffled, g2) \<Rightarrow>
                    (case generate_puzzle_base_loop depth clues shuffled (copy_grid full) 0 of
                       None \<Rightarrow> None
                     | Some (Inl e) \<Rightarrow> Some (Inl e)
                     | Some (Inr puzzle) \<Rightarrow> Some (Inr (puzzle, g2))))))"

text \<open>
  \<^verbatim>\<open>generate_extreme_puzzle\<close>: one iteration per attempt number of
  \<^verbatim>\<open>range(1, max_attempts + 1)\<close>; the messages written to stderr are not modelled.
\<close>

fun generate_extreme_puzzle_loop ::
  "nat \<Rightarrow> int \<Rightarrow> int list \<Rightarrow> rng \<Rightarrow> (grid \<times> rng) result"
where
  "generate_extreme_puzzle_loop depth min_nodes [] g =
     Some (Inl (RuntimeError ''Failed to generate extreme puzzle''))"
| "generate_extreme_puzzle_loop depth min_nodes (attempt # attempts) g =
     (case generate_puzzle_base depth ''extreme'' g of
        None \<Rightarrow> None
      | Some (Inl e) \<Rightarrow> Some (Inl e)
      | Some (Inr (puzzle, g1)) \<Rightarrow>
          (case solve_sudoku_with_stats depth (copy_grid puzzle) 0 g1 of
             None \<Rightarrow> None
           | Some (Inl e) \<Rightarrow> Some (Inl e)
           | Some (Inr (found, test, nodes, g2)) \<Rightarrow>
               if nodes \<ge> min_nodes then Some (Inr (puzzle, g2))
               else generate_extreme_puzzle_loop depth min_nodes attempts g2))"

definition generate_extreme_puzzle :: "nat \<Rightarrow> int \<Rightarrow> int \<Rightarrow> rng \<Rightarrow> (grid \<times> rng) result" where
  "generate_extreme_puzzle depth min_nodes max_attempts g =
     generate_extreme_puzzle_loop depth min_nodes [1..max_attempts] g"

section \<open>Validation\<close>

definition is_valid_group :: "int list \<Rightarrow> bool" where
  "is_valid_group values =
     (let nums = filter (\<lambda>v. v \<noteq> 0) values in length nums = card (set nums))"

fun check_values :: "grid \<Rightarrow> (nat \<times> nat) list \<Rightarrow> error + unit" where
  "check_values grid [] = Inr ()"
| "check_values grid ((r, c) # rest) =
     (case get_cell grid r c of
        Inl e \<Rightarrow> Inl e
      | Inr val \<Rightarrow>
          if \<not> (0 \<le> val \<and> val \<le> 9) then Inl (ValueError (InvalidValue val (r + 1) (c + 1)))
          else check_values grid rest)"

fun check_rows :: "grid \<Rightarrow> nat list \<Rightarrow> error + unit" where
  "check_rows grid [] = Inr ()"
| "check_rows grid (r # rest) =
     (case get_row grid r of
        Inl e \<Rightarrow> Inl e
      | Inr row \<Rightarrow>
          if \<not> is_valid_group row then Inl (ValueError (DuplicateRow (r + 1)))
          else check_rows grid rest)"

text \<open>The comprehension \<^verbatim>\<open>[grid[r][c] for ...]\<close>, which raises at the first bad index.\<close>

fun get_cells :: "grid \<Rightarrow> (nat \<times> nat) list \<Rightarrow> error + int list" where
  "get_cells grid [] = Inr []"
| "get_cells grid ((r, c) # rest) =
     (case get_cell grid r c of
        Inl e \<Rightarrow> Inl e
      | Inr v \<Rightarrow> (case get_cells grid rest of Inl e \<Rightarrow> Inl e | Inr vs \<Rightarrow> Inr (v # vs)))"

fun check_columns :: "grid \<Rightarrow> nat list \<Rightarrow> error + unit" where
  "check_columns grid [] = Inr ()"
| "check_columns grid (c # rest) =
     (case get_cells grid [(r, c). r \<leftarrow> [0..<9]] of
        Inl e \<Rightarrow> Inl e
      | Inr col \<Rightarrow>
          if \<not> is_valid_group col then Inl (ValueError (DuplicateColumn (c + 1)))
          else check_columns grid rest)"

fun check_boxes :: "grid \<Rightarrow> (nat \<times> nat) list \<Rightarrow> error + unit" where
  "check_boxes grid [] = Inr ()"
| "check_boxes grid ((br, bc) # rest) =
     (case get_cells grid [(r, c). r \<leftarrow> [br..<br + 3], c \<leftarrow> [bc..<bc + 3]] of
        Inl e \<Rightarrow> Inl e
      | Inr box \<Rightarrow>
          if \<not> is_valid_group box then Inl (ValueError (DuplicateBox (br + 1) (bc + 1)))
          else check_boxes grid rest)"

definition validate_grid :: "grid \<Rightarrow> error + unit" where
  "validate_grid grid =
     (case check_values grid cells of
        Inl e \<Rightarrow> Inl e
      | Inr _ \<Rightarrow>
          (case check_rows grid [0..<9] of
             Inl e \<Rightarrow> Inl e
           | Inr _ \<Rightarrow>
               (case check_columns grid [0..<9] of
                  Inl e \<Rightarrow> Inl e
                | Inr _ \<Rightarrow> check_boxes grid [(br, bc). br \<leftarrow> [0, 3, 6], bc \<leftarrow> [0, 3, 6]])))"

section \<open>Notions the properties are stated with\<close>

definition grid9 :: "grid \<Rightarrow> bool" where
  "grid9 g \<longleftrightarrow> length g = 9 \<and> (\<forall>row \<in> set g. length row = 9)"

text \<open>The grid after the assignment \<^verbatim>\<open>grid[r][c] = v\<close> (for indices in range).\<close>

definition place :: "grid \<Rightarrow> nat \<Rightarrow> nat \<Rightarrow> int \<Rightarrow> grid" where
  "place g r c v = g[r := (g ! r)[c := v]]"

text \<open>The number of empty cells among the 81 cells the searches look at.\<close>

definition count_empty :: "grid \<Rightarrow> nat" where
  "count_empty g = length (filter (\<lambda>(r, c). get_cell g r c = Inr 0) cells)"

text \<open>Two cells share a row, a column or a 3x3 box.\<close>

definition same_group :: "nat \<times> nat \<Rightarrow> nat \<times> nat \<Rightarrow> bool" where
  "same_group p q \<longleftrightarrow>
     fst p = fst q \<or> snd p = snd q \<or> (fst p div 3 = fst q div 3 \<and> snd p div 3 = snd q div 3)"

text \<open>No cell of the row, column or box of \<open>(r, c)\<close> holds \<open>v\<close>.\<close>

definition free :: "grid \<Rightarrow> nat \<Rightarrow> nat \<Rightarrow> int \<Rightarrow> bool" where
  "free g r c v \<longleftrightarrow> (\<forall>r'<9. \<forall>c'<9. same_group (r, c) (r', c') \<longrightarrow> g ! r' ! c' \<noteq> v)"

text \<open>No other cell of the row, column or box of \<open>(r, c)\<close> holds the value of \<open>(r, c)\<close>.\<close>

definition unique_at :: "grid \<Rightarrow> nat \<Rightarrow> nat \<Rightarrow> bool" where
  "unique_at s r c \<longleftrightarrow>
     (\<forall>r'<9. \<forall>c'<9. (r', c') \<noteq> (r, c) \<and> same_group (r, c) (r', c') \<longrightarrow> s ! r' ! c' \<noteq> s ! r ! c)"

text \<open>Valid: no two equal non-zero digits share a row, column or box.\<close>

definition valid_grid :: "grid \<Rightarrow> bool" where
  "valid_grid g \<longleftrightarrow> (\<forall>r<9. \<forall>c<9. g ! r ! c \<noteq> 0 \<longrightarrow> unique_at g r c)"

definition complete :: "grid \<Rightarrow> bool" where
  "complete g \<longleftrightarrow> (\<forall>r<9. \<forall>c<9. g ! r ! c \<noteq> 0)"

definition in_range :: "grid \<Rightarrow> bool" where
  "in_range g \<longleftrightarrow> (\<forall>r<9. \<forall>c<9. 0 \<le> g ! r ! c \<and> g ! r ! c \<le> 9)"

definition solved :: "grid \<Rightarrow> bool" where
  "solved s \<longleftrightarrow> grid9 s \<and> in_range s \<and> complete s \<and> valid_grid s"

definition extends :: "grid \<Rightarrow> grid \<Rightarrow> bool" where
  "extends g s \<longleftrightarrow> (\<forall>r<9. \<forall>c<9. g ! r ! c \<noteq> 0 \<longrightarrow> s ! r ! c = g ! r ! c)"

text \<open>
  A completion of \<open>g\<close> keeps the filled cells of \<open>g\<close> and gives every empty cell a digit
  1 to 9 that occurs nowhere else in its row, column and box. This is what the searches
  enumerate, whether or not the clues of \<open>g\<close> themselves conflict.
\<close>

definition completion :: "grid \<Rightarrow> grid \<Rightarrow> bool" where
  "completion g s \<longleftrightarrow> grid9 s \<and>
     (\<forall>r<9. \<forall>c<9. if g ! r ! c \<noteq> 0 then s ! r ! c = g ! r ! c
                    else 1 \<le> s ! r ! c \<and> s ! r ! c \<le> 9 \<and> unique_at s r c)"

definition completions :: "grid \<Rightarrow> grid set" where
  "completions g = {s. completion g s}"

text \<open>
  One attempt of the loop of \<^verbatim>\<open>generate_extreme_puzzle\<close>: the puzzle generated, the node
  count measured on a copy of it, and the randomness source afterwards.
\<close>

definition extreme_attempt :: "nat \<Rightarrow> rng \<Rightarrow> (grid \<times> int \<times> rng) result" where
  "extreme_attempt depth g =
     (case generate_puzzle_base depth ''extreme'' g of
        None \<Rightarrow> None
      | Some (Inl e) \<Rightarrow> Some (Inl e)
      | Some (Inr (puzzle, g1)) \<Rightarrow>
          (case solve_sudoku_with_stats depth (copy_grid puzzle) 0 g1 of
             None \<Rightarrow> None
           | Some (Inl e) \<Rightarrow> Some (Inl e)
           | Some (Inr (found, test, nodes, g2)) \<Rightarrow> Some (Inr (puzzle, nodes, g2))))"

text \<open>The attempt number \<open>k\<close> (from 0) of a run in which attempts follow one another.\<close>

fun nth_attempt :: "nat \<Rightarrow> rng \<Rightarrow> nat \<Rightarrow> (grid \<times> int \<times> rng) result" where
  "nth_attempt depth g 0 = extreme_attempt depth g"
| "nth_attempt depth g (Suc k) =
     (case extreme_attempt depth g of
        None \<Rightarrow> None
      | Some (Inl e) \<Rightarrow> Some (Inl e)
      | Some (Inr (puzzle, nodes, g')) \<Rightarrow> nth_attempt depth g' k)"

text \<open>The hardness measurement of one attempt, on a given puzzle.\<close>

definition measured_nodes :: "nat \<Rightarrow> grid \<Rightarrow> rng \<Rightarrow> int option" where
  "measured_nodes depth puzzle g =
     (case solve_sudoku_with_stats depth (copy_grid puzzle) 0 g of
        Some (Inr (found, test, nodes, g')) \<Rightarrow> Some nodes
      | _ \<Rightarrow> None)"


section \<open>Example grids\<close>

definition solved_example :: grid where
  "solved_example =
     [[5, 3, 4, 6, 7, 8, 9, 1, 2],
      [6, 7, 2, 1, 9, 5, 3, 4, 8],
      [1, 9, 8, 3, 4, 2, 5, 6, 7],
      [8, 5, 9, 7, 6, 1, 4, 2, 3],
      [4, 2, 6, 8, 5, 3, 7, 9, 1],
      [7, 1, 3, 9, 2, 4, 8, 5, 6],
      [9, 6, 1, 5, 3, 7, 2, 8, 4],
      [2, 8, 7, 4, 1, 9, 6, 3, 5],
      [3, 4, 5, 2, 8, 6, 1, 7, 9]]"

definition one_empty_example :: grid where
  "one_empty_example = place solved_example 0 0 0"

text \<open>A clue 5 written over the 3 of the first row: the empty corner has no candidate.\<close>

definition unsolvable_example :: grid where
  "unsolvable_example = place one_empty_example 0 1 5"

definition over_limit_example :: grid where
  "over_limit_example =
     [[0, 3, 4, 6, 7, 8, 9, 1, 2],
      [6, 7, 2, 1, 9, 5, 3, 4, 8],
      [1, 9, 8, 3, 0, 0, 5, 6, 7],
      [8, 5, 9, 7, 6, 1, 4, 0, 3],
      [4, 2, 6, 8, 5, 3, 7, 9, 1],
      [7, 1, 3, 0, 0, 0, 8, 5, 0],
      [9, 6, 0, 0, 3, 7, 2, 8, 4],
      [2, 8, 7, 0, 1, 0, 6, 3, 5],
      [3, 4, 5, 2, 0, 6, 1, 7, 9]]"

definition order_example :: grid where
  "order_example =
     [[5, 3, 4, 6, 7, 8, 9, 1, 2],
      [0, 7, 0, 1, 9, 5, 3, 4, 8],
      [1, 9, 8, 3, 4, 2, 5, 6, 7],
      [8, 5, 9, 7, 6, 1, 4, 2, 3],
      [4, 2, 6, 8, 5, 3, 7, 9, 1],
      [7, 1, 3, 9, 2, 4, 8, 5, 6],
      [9, 6, 1, 5, 3, 7, 2, 8, 4],
      [0, 8, 7, 4, 1, 9, 6, 3, 5],
      [3, 4, 5, 2, 8, 6, 1, 7, 9]]"

definition ascending_rng :: rng where
  "ascending_rng =
     \<lparr>samples = (\<lambda>k. [1, 2, 3, 4, 5, 6, 7, 8, 9]), shuffles = (\<lambda>k. cells),
      sample_pos = 0, shuffle_pos = 0\<rparr>"

definition descending_rng :: rng where
  "descending_rng =
     \<lparr>samples = (\<lambda>k. [9, 8, 7, 6, 5, 4, 3, 2, 1]), shuffles = (\<lambda>k. cells),
      sample_pos = 0, shuffle_pos = 0\<rparr>"

section \<open>Auxiliary facts\<close>

lemma grid9_row: "grid9 g \<Longrightarrow> r < 9 \<Longrightarrow> length (g ! r) = 9"
  using nth_mem [of r g] by (simp add: grid9_def)

lemma get_row_grid9: "grid9 g \<Longrightarrow> r < 9 \<Longrightarrow> get_row g r = Inr (g ! r)"
  by (simp add: get_row_def grid9_def)

lemma get_cell_grid9: "grid9 g \<Longrightarrow> r < 9 \<Longrightarrow> c < 9 \<Longrightarrow> get_cell g r c = Inr (g ! r ! c)"
  by (simp add: get_cell_def get_row_grid9 grid9_row)

lemma set_cell_grid9: "grid9 g \<Longrightarrow> r < 9 \<Longrightarrow> c < 9 \<Longrightarrow> set_cell g r c v = Inr (place g r c v)"
  by (simp add: set_cell_def get_row_grid9 grid9_row place_def)

lemma grid9_place: "grid9 g \<Longrightarrow> grid9 (place g r c v)"
proof (cases "r < length g")
  case True
  assume g: "grid9 g"
  have "length ((g ! r)[c := v]) = 9" using g True by (simp add: grid9_def)
  then show ?thesis using g unfolding grid9_def place_def
    by (auto dest!: set_update_subset_insert [THEN subsetD])
next
  case False
  then show "grid9 g \<Longrightarrow> ?thesis" by (simp add: place_def list_update_beyond)
qed

lemma place_nth:
  "grid9 g \<Longrightarrow> r < 9 \<Longrightarrow> c < 9 \<Longrightarrow> r' < 9 \<Longrightarrow> c' < 9 \<Longrightarrow>
   place g r c v ! r' ! c' = (if r' = r \<and> c' = c then v else g ! r' ! c')"
  by (auto simp: place_def grid9_def nth_list_update)

lemma grid9_eqI:
  assumes "grid9 g" "grid9 s" "\<And>r c. r < 9 \<Longrightarrow> c < 9 \<Longrightarrow> g ! r ! c = s ! r ! c"
  shows "g = s"
proof (rule nth_equalityI)
  show "length g = length s" using assms by (simp add: grid9_def)
next
  fix r assume "r < length g"
  then have r: "r < 9" using assms by (simp add: grid9_def)
  show "g ! r = s ! r"
    by (rule nth_equalityI) (use r assms in \<open>auto simp: grid9_row\<close>)
qed

lemma set_cells: "set cells = {(r, c). r < 9 \<and> c < 9}"
  by (auto simp: cells_def)

lemma cells_product: "cells = List.product [0..<9] [0..<9]"
  by (simp add: cells_def product_concat_map)

lemma distinct_cells: "distinct cells"
  by (simp add: cells_product distinct_product)

lemma set_cell_get_cell:
  "set_cell g r c v = Inr g1 \<Longrightarrow>
   get_cell g1 r' c' = (if r' = r \<and> c' = c then Inr v else get_cell g r' c')"
  by (auto simp: set_cell_def get_cell_def get_row_def nth_list_update split: if_splits)

lemma set_cell_undo:
  "get_cell g r c = Inr 0 \<Longrightarrow> set_cell g r c v = Inr g1 \<Longrightarrow> set_cell g1 r c 0 = Inr g"
  by (auto simp: set_cell_def get_cell_def get_row_def split: if_splits)
     (metis list_update_id)

lemma find_empty_in_Some:
  "find_empty_in g cs = Inr (Some (r, c)) \<Longrightarrow> (r, c) \<in> set cs \<and> get_cell g r c = Inr 0"
  by (induction g cs rule: find_empty_in.induct) (auto split: sum.splits if_splits)

lemma find_empty_Some:
  "find_empty g = Inr (Some (r, c)) \<Longrightarrow> r < 9 \<and> c < 9 \<and> get_cell g r c = Inr 0"
  using find_empty_in_Some [of g cells r c] by (simp add: find_empty_def set_cells)

lemma solve_sudoku_loop_revert:
  assumes rec: "\<And>grid stats g' st'.
      solve_sudoku n grid stats = Some (Inr (False, g', st')) \<Longrightarrow> g' = grid"
  shows "get_cell grid row col = Inr 0 \<Longrightarrow>
     solve_sudoku_loop n row col nums grid stats = Some (Inr (False, g', st')) \<Longrightarrow> g' = grid"
proof (induction nums arbitrary: grid stats)
  case Nil
  then show ?case by simp
next
  case (Cons num nums)
  show ?case
  proof (cases "is_valid_move grid row col num = Inr True")
    case False
    with Cons show ?thesis by (auto split: sum.splits bool.splits)
  next
    case True
    with Cons.prems obtain grid1 grid2 stats2 grid3 where
      s1: "set_cell grid row col num = Inr grid1" and
      r1: "solve_sudoku n grid1 (stats + 1) = Some (Inr (False, grid2, stats2))" and
      s3: "set_cell grid2 row col 0 = Inr grid3" and
      l3: "solve_sudoku_loop n row col nums grid3 stats2 = Some (Inr (False, g', st'))"
      by (auto split: sum.splits bool.splits option.splits)
    have "grid2 = grid1" using rec [OF r1] .
    with s3 set_cell_undo [OF Cons.prems(1) s1] have "grid3 = grid" by simp
    with Cons.IH [of grid stats2] Cons.prems(1) l3 show ?thesis by simp
  qed
qed

lemma solve_sudoku_revert:
  "solve_sudoku n grid stats = Some (Inr (False, g', st')) \<Longrightarrow> g' = grid"
proof (induction n arbitrary: grid stats g' st')
  case 0
  then show ?case by simp
next
  case (Suc n)
  from Suc.prems obtain row col where
    fe: "find_empty grid = Inr (Some (row, col))" and
    lp: "solve_sudoku_loop n row col [1..9] grid stats = Some (Inr (False, g', st'))"
    by (auto split: sum.splits option.splits)
  show ?case
    using solve_sudoku_loop_revert [OF Suc.IH _ lp] find_empty_Some [OF fe] by simp
qed

lemma same_group_sym: "same_group p q \<Longrightarrow> same_group q p"
  by (auto simp: same_group_def)

lemma any_cell_eq_grid9:
  "grid9 g \<Longrightarrow> \<forall>(r, c) \<in> set cs. r < 9 \<and> c < 9 \<Longrightarrow>
   any_cell_eq g cs num = Inr (\<exists>(r, c) \<in> set cs. g ! r ! c = num)"
  by (induction g cs num rule: any_cell_eq.induct) (auto simp: get_cell_grid9)

lemma div3_iff: "(r::nat) div 3 = k \<longleftrightarrow> k * 3 \<le> r \<and> r < k * 3 + 3"
proof
  assume "r div 3 = k"
  moreover have "r = r div 3 * 3 + r mod 3" by simp
  moreover have "r mod 3 < 3" by simp
  ultimately show "k * 3 \<le> r \<and> r < k * 3 + 3" by linarith
next
  assume "k * 3 \<le> r \<and> r < k * 3 + 3"
  then show "r div 3 = k" by (intro div_nat_eqI) simp_all
qed

lemma box_range: "row < 9 \<Longrightarrow> r \<in> set [row div 3 * 3..<row div 3 * 3 + 3] \<longleftrightarrow> r < 9 \<and> r div 3 = row div 3"
proof -
  assume "row < 9"
  then have "row div 3 < 3" by (intro less_mult_imp_div_less) simp
  then have "r < row div 3 * 3 + 3 \<Longrightarrow> r < 9" by linarith
  then show ?thesis
    unfolding div3_iff [of r "row div 3"] by auto
qed

lemma row_mem_grid9:
  "grid9 g \<Longrightarrow> row < 9 \<Longrightarrow> num \<in> set (g ! row) \<longleftrightarrow> (\<exists>c'<9. g ! row ! c' = num)"
  using grid9_row [of g row] by (auto simp: in_set_conv_nth)

lemma col_scan_grid9:
  assumes "grid9 g" "col < 9"
  shows "any_cell_eq g [(r, col). r \<leftarrow> [0..<9]] num = Inr (\<exists>r'<9. g ! r' ! col = num)"
proof -
  have "any_cell_eq g [(r, col). r \<leftarrow> [0..<9]] num =
      Inr (\<exists>(r', c') \<in> set [(r, col). r \<leftarrow> [0..<9]]. g ! r' ! c' = num)"
    by (rule any_cell_eq_grid9 [OF assms(1)]) (use assms(2) in auto)
  also have "(\<exists>(r', c') \<in> set [(r, col). r \<leftarrow> [0..<9]]. g ! r' ! c' = num) \<longleftrightarrow>
      (\<exists>r'<9. g ! r' ! col = num)"
    by auto
  finally show ?thesis .
qed

lemma set_pairs: "(a, b) \<in> set [(r, c). r \<leftarrow> xs, c \<leftarrow> ys] \<longleftrightarrow> a \<in> set xs \<and> b \<in> set ys"
  by (induction xs) auto

lemma box_cells_mem:
  assumes "row < 9" "col < 9"
  shows "(r', c') \<in> set [(r, c). r \<leftarrow> [row div 3 * 3..<row div 3 * 3 + 3],
                                 c \<leftarrow> [col div 3 * 3..<col div 3 * 3 + 3]]
       \<longleftrightarrow> (r' < 9 \<and> r' div 3 = row div 3) \<and> (c' < 9 \<and> c' div 3 = col div 3)"
proof -
  have "(r', c') \<in> set [(r, c). r \<leftarrow> [row div 3 * 3..<row div 3 * 3 + 3],
                                 c \<leftarrow> [col div 3 * 3..<col div 3 * 3 + 3]]
     \<longleftrightarrow> r' \<in> set [row div 3 * 3..<row div 3 * 3 + 3] \<and> c' \<in> set [col div 3 * 3..<col div 3 * 3 + 3]"
    by (rule set_pairs)
  then show ?thesis
    unfolding box_range [OF assms(1)] box_range [OF assms(2)] .
qed

lemma box_scan_grid9:
  assumes g: "grid9 g" and r: "row < 9" and c: "col < 9"
  shows "any_cell_eq g [(r, c). r \<leftarrow> [row div 3 * 3..<row div 3 * 3 + 3],
                                c \<leftarrow> [col div 3 * 3..<col div 3 * 3 + 3]] num
      = Inr (\<exists>r'<9. \<exists>c'<9. r' div 3 = row div 3 \<and> c' div 3 = col div 3 \<and> g ! r' ! c' = num)"
    (is "any_cell_eq g ?cs num = _")
proof -
  note m = box_cells_mem [OF r c]
  have "any_cell_eq g ?cs num = Inr (\<exists>(r', c') \<in> set ?cs. g ! r' ! c' = num)"
    by (rule any_cell_eq_grid9 [OF g]) (use m in blast)
  also have "(\<exists>(r', c') \<in> set ?cs. g ! r' ! c' = num)
       \<longleftrightarrow> (\<exists>r'<9. \<exists>c'<9. r' div 3 = row div 3 \<and> c' div 3 = col div 3 \<and> g ! r' ! c' = num)"
    using m by blast
  finally show ?thesis .
qed

lemma free_iff:
  assumes "row < 9" "col < 9"
  shows "free g row col num \<longleftrightarrow> \<not> (\<exists>c'<9. g ! row ! c' = num) \<and> \<not> (\<exists>r'<9. g ! r' ! col = num)
     \<and> \<not> (\<exists>r'<9. \<exists>c'<9. r' div 3 = row div 3 \<and> c' div 3 = col div 3 \<and> g ! r' ! c' = num)"
proof
  assume f: "free g row col num"
  have a: "g ! row ! c' \<noteq> num" if "c' < 9" for c'
    using f assms that by (simp add: free_def same_group_def)
  have b: "g ! r' ! col \<noteq> num" if "r' < 9" for r'
    using f assms that by (simp add: free_def same_group_def)
  have c: "g ! r' ! c' \<noteq> num" if "r' < 9" "c' < 9" "r' div 3 = row div 3" "c' div 3 = col div 3" for r' c'
    using f assms that by (simp add: free_def same_group_def)
  show "\<not> (\<exists>c'<9. g ! row ! c' = num) \<and> \<not> (\<exists>r'<9. g ! r' ! col = num)
     \<and> \<not> (\<exists>r'<9. \<exists>c'<9. r' div 3 = row div 3 \<and> c' div 3 = col div 3 \<and> g ! r' ! c' = num)"
    using a b c by blast
next
  assume r: "\<not> (\<exists>c'<9. g ! row ! c' = num) \<and> \<not> (\<exists>r'<9. g ! r' ! col = num)
     \<and> \<not> (\<exists>r'<9. \<exists>c'<9. r' div 3 = row div 3 \<and> c' div 3 = col div 3 \<and> g ! r' ! c' = num)"
  show "free g row col num"
    unfolding free_def same_group_def fst_conv snd_conv
  proof (intro allI impI)
    fix r' c' assume "r' < 9" "c' < 9"
      and "row = r' \<or> col = c' \<or> row div 3 = r' div 3 \<and> col div 3 = c' div 3"
    then show "g ! r' ! c' \<noteq> num" using r by metis
  qed
qed

lemma three_tests:
  "(if A then Inr False else case B of True \<Rightarrow> Inr False
        | False \<Rightarrow> (case C of True \<Rightarrow> Inr False | False \<Rightarrow> Inr True))
   = (Inr (\<not> A \<and> \<not> B \<and> \<not> C) :: error + bool)"
  by (cases A; cases B; cases C) simp_all

lemma is_valid_move_grid9:
  assumes g: "grid9 g" and r: "row < 9" and c: "col < 9"
  shows "is_valid_move g row col num = Inr (free g row col num)"
proof -
  let ?A = "\<exists>c'<9. g ! row ! c' = num" and ?B = "\<exists>r'<9. g ! r' ! col = num"
  let ?C = "\<exists>r'<9. \<exists>c'<9. r' div 3 = row div 3 \<and> c' div 3 = col div 3 \<and> g ! r' ! c' = num"
  have "is_valid_move g row col num =
     (if num \<in> set (g ! row) then Inr False else case ?B of True \<Rightarrow> Inr False
        | False \<Rightarrow> (case ?C of True \<Rightarrow> Inr False | False \<Rightarrow> Inr True))"
    unfolding is_valid_move_def get_row_grid9 [OF g r] Let_def
      box_scan_grid9 [OF g r c] col_scan_grid9 [OF g c]
    by (simp only: sum.case)
  also have "\<dots> = Inr (\<not> ?A \<and> \<not> ?B \<and> \<not> ?C)"
    unfolding row_mem_grid9 [OF g r] by (rule three_tests)
  finally show ?thesis unfolding free_iff [OF r c] .
qed

lemma completion_grid9: "completion g s \<Longrightarrow> grid9 s"
  by (simp add: completion_def)

lemma completion_fixed:
  "completion g s \<Longrightarrow> r < 9 \<Longrightarrow> c < 9 \<Longrightarrow> g ! r ! c \<noteq> 0 \<Longrightarrow> s ! r ! c = g ! r ! c"
  unfolding completion_def by metis

lemma completion_filled:
  "completion g s \<Longrightarrow> r < 9 \<Longrightarrow> c < 9 \<Longrightarrow> g ! r ! c = 0 \<Longrightarrow>
     1 \<le> s ! r ! c \<and> s ! r ! c \<le> 9 \<and> unique_at s r c"
  unfolding completion_def by metis

lemma completionI:
  assumes "grid9 s"
    and "\<And>r c. r < 9 \<Longrightarrow> c < 9 \<Longrightarrow> g ! r ! c \<noteq> 0 \<Longrightarrow> s ! r ! c = g ! r ! c"
    and "\<And>r c. r < 9 \<Longrightarrow> c < 9 \<Longrightarrow> g ! r ! c = 0 \<Longrightarrow>
           1 \<le> s ! r ! c \<and> s ! r ! c \<le> 9 \<and> unique_at s r c"
  shows "completion g s"
  unfolding completion_def using assms by simp

lemma unique_atD:
  "unique_at s r c \<Longrightarrow> r' < 9 \<Longrightarrow> c' < 9 \<Longrightarrow> (r', c') \<noteq> (r, c) \<Longrightarrow>
     same_group (r, c) (r', c') \<Longrightarrow> s ! r' ! c' \<noteq> s ! r ! c"
  unfolding unique_at_def by blast

lemma unique_atI:
  assumes "\<And>r' c'. r' < 9 \<Longrightarrow> c' < 9 \<Longrightarrow> (r', c') \<noteq> (r, c) \<Longrightarrow>
     same_group (r, c) (r', c') \<Longrightarrow> s ! r' ! c' \<noteq> s ! r ! c"
  shows "unique_at s r c"
  unfolding unique_at_def using assms by blast

lemma freeD:
  "free g r c v \<Longrightarrow> r' < 9 \<Longrightarrow> c' < 9 \<Longrightarrow> same_group (r, c) (r', c') \<Longrightarrow> g ! r' ! c' \<noteq> v"
  unfolding free_def by blast

lemma freeI:
  assumes "\<And>r' c'. r' < 9 \<Longrightarrow> c' < 9 \<Longrightarrow> same_group (r, c) (r', c') \<Longrightarrow> g ! r' ! c' \<noteq> v"
  shows "free g r c v"
  unfolding free_def using assms by blast

lemma completion_nonzero:
  "completion g s \<Longrightarrow> r < 9 \<Longrightarrow> c < 9 \<Longrightarrow> s ! r ! c \<noteq> 0"
  using completion_fixed [of g s r c] completion_filled [of g s r c] by (cases "g ! r ! c = 0") auto

lemma completion_free:
  assumes g: "grid9 g" and r: "r < 9" and c: "c < 9" and e: "g ! r ! c = 0"
    and s: "completion g s"
  shows "free g r c (s ! r ! c)"
proof (rule freeI)
  fix r' c' assume b: "r' < 9" "c' < 9" and sg: "same_group (r, c) (r', c')"
  note u = completion_filled [OF s r c e]
  show "g ! r' ! c' \<noteq> s ! r ! c"
  proof (cases "g ! r' ! c' = 0")
    case True
    with u show ?thesis by simp
  next
    case False
    then have ne: "(r', c') \<noteq> (r, c)" using e by auto
    have "s ! r' ! c' = g ! r' ! c'" using completion_fixed [OF s b False] .
    with unique_atD [OF _ b ne sg] u show ?thesis by metis
  qed
qed

lemma completion_place:
  assumes g: "grid9 g" and r: "r < 9" and c: "c < 9" and e: "g ! r ! c = 0"
    and s: "completion g s"
  shows "completion (place g r c (s ! r ! c)) s"
proof (rule completionI)
  show "grid9 s" using s by (rule completion_grid9)
next
  fix r' c' assume b: "r' < 9" "c' < 9" and nz: "place g r c (s ! r ! c) ! r' ! c' \<noteq> 0"
  show "s ! r' ! c' = place g r c (s ! r ! c) ! r' ! c'"
    using nz completion_fixed [OF s b] by (auto simp: place_nth [OF g r c b])
next
  fix r' c' assume b: "r' < 9" "c' < 9" and z: "place g r c (s ! r ! c) ! r' ! c' = 0"
  then have "g ! r' ! c' = 0"
    using completion_filled [OF s r c e] by (auto simp: place_nth [OF g r c b] split: if_splits)
  then show "1 \<le> s ! r' ! c' \<and> s ! r' ! c' \<le> 9 \<and> unique_at s r' c'"
    by (rule completion_filled [OF s b])
qed

lemma completion_place_value:
  assumes g: "grid9 g" and r: "r < 9" and c: "c < 9" and d: "d \<noteq> 0"
    and s: "completion (place g r c d) s"
  shows "s ! r ! c = d"
  using completion_fixed [OF s r c] d by (simp add: place_nth [OF g r c r c])

lemma completion_unplace:
  assumes g: "grid9 g" and r: "r < 9" and c: "c < 9" and e: "g ! r ! c = 0"
    and d: "1 \<le> d" "d \<le> 9" and f: "free g r c d"
    and s: "completion (place g r c d) s"
  shows "completion g s"
proof (rule completionI)
  show "grid9 s" using s by (rule completion_grid9)
next
  fix r' c' assume b: "r' < 9" "c' < 9" and nz: "g ! r' ! c' \<noteq> 0"
  then have "(r', c') \<noteq> (r, c)" using e by auto
  then show "s ! r' ! c' = g ! r' ! c'"
    using completion_fixed [OF s b] nz by (auto simp: place_nth [OF g r c b])
next
  fix r' c' assume b: "r' < 9" "c' < 9" and z: "g ! r' ! c' = 0"
  have sv: "s ! r ! c = d" using completion_place_value [OF g r c _ s] d by simp
  show "1 \<le> s ! r' ! c' \<and> s ! r' ! c' \<le> 9 \<and> unique_at s r' c'"
  proof (cases "(r', c') = (r, c)")
    case False
    then have "place g r c d ! r' ! c' = 0" using z by (auto simp: place_nth [OF g r c b])
    then show ?thesis by (rule completion_filled [OF s b])
  next
    case True
    have "unique_at s r c"
    proof (rule unique_atI)
      fix r2 c2 assume b2: "r2 < 9" "c2 < 9" and ne: "(r2, c2) \<noteq> (r, c)"
        and sg: "same_group (r, c) (r2, c2)"
      have pl: "place g r c d ! r2 ! c2 = g ! r2 ! c2"
        using ne by (auto simp: place_nth [OF g r c b2])
      show "s ! r2 ! c2 \<noteq> s ! r ! c"
      proof (cases "g ! r2 ! c2 = 0")
        case False
        then have "s ! r2 ! c2 = g ! r2 ! c2" using completion_fixed [OF s b2] pl by simp
        with freeD [OF f b2 sg] sv show ?thesis by simp
      next
        case True
        then have "unique_at s r2 c2" using completion_filled [OF s b2] pl by simp
        from unique_atD [OF this r c _ same_group_sym [OF sg]] ne show ?thesis by auto
      qed
    qed
    with True sv d show ?thesis by simp
  qed
qed

lemma completion_complete:
  assumes g: "grid9 g" and c: "complete g"
  shows "completion g s \<longleftrightarrow> s = g"
proof
  assume s: "completion g s"
  show "s = g"
  proof (rule grid9_eqI [OF completion_grid9 [OF s] g])
    fix r c assume b: "r < (9::nat)" "c < (9::nat)"
    then have "g ! r ! c \<noteq> 0" using assms(2) by (simp add: complete_def)
    then show "s ! r ! c = g ! r ! c" by (rule completion_fixed [OF s b])
  qed
next
  assume "s = g"
  then show "completion g s" using assms by (auto intro!: completionI simp: complete_def)
qed

lemma count_solutions_loop_revert:
  assumes rec: "\<And>grid k g'. count_solutions n grid limit = Some (Inr (k, g')) \<Longrightarrow> g' = grid"
  shows "get_cell grid row col = Inr 0 \<Longrightarrow>
     count_solutions_loop n row col nums grid limit count = Some (Inr (k, g')) \<Longrightarrow> g' = grid"
proof (induction nums arbitrary: grid count)
  case Nil
  then show ?case by simp
next
  case (Cons num nums)
  show ?case
  proof (cases "is_valid_move grid row col num = Inr True")
    case False
    with Cons show ?thesis by (auto split: sum.splits bool.splits)
  next
    case True
    with Cons.prems obtain grid1 k1 grid2 grid3 where
      s1: "set_cell grid row col num = Inr grid1" and
      r1: "count_solutions n grid1 limit = Some (Inr (k1, grid2))" and
      s3: "set_cell grid2 row col 0 = Inr grid3" and
      l3: "if limit \<le> count + k1 then k = count + k1 \<and> g' = grid3
           else count_solutions_loop n row col nums grid3 limit (count + k1) = Some (Inr (k, g'))"
      by (auto split: sum.splits bool.splits option.splits if_splits)
    have "grid2 = grid1" using rec [OF r1] .
    with s3 set_cell_undo [OF Cons.prems(1) s1] have g3: "grid3 = grid" by simp
    show ?thesis
    proof (cases "limit \<le> count + k1")
      case True
      with l3 g3 show ?thesis by simp
    next
      case False
      with l3 g3 Cons.IH [of grid "count + k1"] Cons.prems(1) show ?thesis by simp
    qed
  qed
qed

lemma count_solutions_revert:
  "count_solutions n grid limit = Some (Inr (k, g')) \<Longrightarrow> g' = grid"
proof (induction n arbitrary: grid k g')
  case 0
  then show ?case by simp
next
  case (Suc n)
  show ?case
  proof (cases "find_empty grid")
    case (Inl e)
    with Suc.prems show ?thesis by simp
  next
    case (Inr found)
    show ?thesis
    proof (cases found)
      case None
      with Inr Suc.prems show ?thesis by simp
    next
      case (Some cell)
      obtain row col where cell: "cell = (row, col)" by (cases cell)
      from Suc.prems Inr Some cell have
        lp: "count_solutions_loop n row col [1..9] grid limit 0 = Some (Inr (k, g'))" by simp
      show ?thesis
        using count_solutions_loop_revert [OF Suc.IH _ lp]
          find_empty_Some [of grid row col] Inr Some cell by simp
    qed
  qed
qed

lemma solve_sudoku_with_stats_loop_revert:
  assumes rec: "\<And>grid stats g g' st' gg.
      solve_sudoku_with_stats n grid stats g = Some (Inr (False, g', st', gg)) \<Longrightarrow> g' = grid"
  shows "get_cell grid row col = Inr 0 \<Longrightarrow>
     solve_sudoku_with_stats_loop n row col nums grid stats g = Some (Inr (False, g', st', gg))
     \<Longrightarrow> g' = grid"
proof (induction nums arbitrary: grid stats g)
  case Nil
  then show ?case by simp
next
  case (Cons num nums)
  show ?case
  proof (cases "is_valid_move grid row col num = Inr True")
    case False
    with Cons show ?thesis by (auto split: sum.splits bool.splits)
  next
    case True
    with Cons.prems obtain grid1 grid2 stats2 g2 grid3 where
      s1: "set_cell grid row col num = Inr grid1" and
      r1: "solve_sudoku_with_stats n grid1 (stats + 1) g = Some (Inr (False, grid2, stats2, g2))" and
      s3: "set_cell grid2 row col 0 = Inr grid3" and
      l3: "solve_sudoku_with_stats_loop n row col nums grid3 stats2 g2
             = Some (Inr (False, g', st', gg))"
      by (auto split: sum.splits bool.splits option.splits)
    have "grid2 = grid1" using rec [OF r1] .
    with s3 set_cell_undo [OF Cons.prems(1) s1] have "grid3 = grid" by simp
    with Cons.IH [of grid stats2 g2] Cons.prems(1) l3 show ?thesis by simp
  qed
qed

lemma solve_sudoku_with_stats_revert:
  "solve_sudoku_with_stats n grid stats g = Some (Inr (False, g', st', gg)) \<Longrightarrow> g' = grid"
proof (induction n arbitrary: grid stats g g' st' gg)
  case 0
  then show ?case by simp
next
  case (Suc n)
  from Suc.prems obtain row col nums g1 where
    fe: "find_empty grid = Inr (Some (row, col))" and
    lp: "solve_sudoku_with_stats_loop n row col nums grid stats g1
           = Some (Inr (False, g', st', gg))"
    by (auto split: sum.splits option.splits prod.splits)
  show ?case
    using solve_sudoku_with_stats_loop_revert [OF Suc.IH _ lp] find_empty_Some [OF fe] by simp
qed

lemma upto_1_9: "[1..9] = [1, 2, 3, 4, 5, 6, 7, 8, 9 :: int]"
  by (simp add: upto_rec1)


lemma length_cells: "length cells = 81"
  by (simp add: cells_product)

lemma count_empty_le: "count_empty g \<le> 81"
  unfolding count_empty_def using length_filter_le [of _ cells] by (simp add: length_cells)

lemma filter_length_one_less:
  "distinct xs \<Longrightarrow> x \<in> set xs \<Longrightarrow> P x \<Longrightarrow> \<not> Q x \<Longrightarrow>
   (\<And>y. y \<in> set xs \<Longrightarrow> y \<noteq> x \<Longrightarrow> P y = Q y) \<Longrightarrow>
   length (filter P xs) = Suc (length (filter Q xs))"
proof (induction xs)
  case Nil
  then show ?case by simp
next
  case (Cons a xs)
  show ?case
  proof (cases "a = x")
    case True
    then have "x \<notin> set xs" using Cons.prems(1) by simp
    then have "filter P xs = filter Q xs"
      using Cons.prems(5) by (intro filter_cong) auto
    with True Cons.prems show ?thesis by simp
  next
    case False
    then have "length (filter P xs) = Suc (length (filter Q xs))"
      using Cons by auto
    moreover have "P a = Q a" using Cons.prems(5) [of a] False by simp
    ultimately show ?thesis by simp
  qed
qed

lemma count_empty_set_cell:
  assumes "r < 9" "c < 9" "get_cell g r c = Inr 0" "set_cell g r c v = Inr g1" "v \<noteq> 0"
  shows "count_empty g = Suc (count_empty g1)"
  unfolding count_empty_def
proof (rule filter_length_one_less [OF distinct_cells, of "(r, c)"])
  show "(r, c) \<in> set cells" using assms by (simp add: set_cells)
  show "case (r, c) of (r, c) \<Rightarrow> get_cell g r c = Inr 0" using assms by simp
  show "\<not> (case (r, c) of (r, c) \<Rightarrow> get_cell g1 r c = Inr 0)"
    using assms by (simp add: set_cell_get_cell [OF assms(4)])
  show "(case y of (r, c) \<Rightarrow> get_cell g r c = Inr 0) = (case y of (r, c) \<Rightarrow> get_cell g1 r c = Inr 0)"
    if "y \<noteq> (r, c)" for y
    using that by (cases y) (auto simp: set_cell_get_cell [OF assms(4)])
qed

lemma valid_move_nonzero:
  assumes "get_cell g r c = Inr 0" "is_valid_move g r c num = Inr True"
  shows "num \<noteq> 0"
proof
  assume "num = 0"
  from assms(1) have "r < length g" "c < length (g ! r)" "g ! r ! c = 0"
    by (auto simp: get_cell_def get_row_def split: if_splits)
  then have "0 \<in> set (g ! r)" by (metis nth_mem)
  with \<open>r < length g\<close> \<open>num = 0\<close> have "is_valid_move g r c num = Inr False"
    by (simp add: is_valid_move_def get_row_def)
  with assms(2) show False by simp
qed

section \<open>depth\<close>

lemma is_valid_move_no_error:
  "grid9 g \<Longrightarrow> r < 9 \<Longrightarrow> c < 9 \<Longrightarrow> is_valid_move g r c num = Inl e \<Longrightarrow> False"
  by (simp add: is_valid_move_grid9)

lemma set_cell_no_error:
  "grid9 g \<Longrightarrow> r < 9 \<Longrightarrow> c < 9 \<Longrightarrow> set_cell g r c v = Inl e \<Longrightarrow> False"
  by (simp add: set_cell_grid9)

lemma set_cell_keeps_grid9:
  "grid9 g \<Longrightarrow> r < 9 \<Longrightarrow> c < 9 \<Longrightarrow> set_cell g r c v = Inr g1 \<Longrightarrow> grid9 g1"
  using grid9_place [of g r c v] by (simp add: set_cell_grid9)

lemma solve_sudoku_loop_depth:
  assumes rec: "\<And>grid stats. count_empty grid < n \<Longrightarrow>
      \<exists>x. solve_sudoku n grid stats = Some x \<and> (grid9 grid \<longrightarrow> (\<exists>t. x = Inr t))"
  shows "r < 9 \<Longrightarrow> c < 9 \<Longrightarrow> get_cell grid r c = Inr 0 \<Longrightarrow> count_empty grid \<le> n \<Longrightarrow>
     \<exists>x. solve_sudoku_loop n r c nums grid stats = Some x \<and> (grid9 grid \<longrightarrow> (\<exists>t. x = Inr t))"
proof (induction nums arbitrary: stats)
  case Nil
  then show ?case by auto
next
  case (Cons num nums)
  note IH = Cons.IH [OF Cons.prems]
  note rc = Cons.prems(1,2)
  show ?case
  proof (cases "is_valid_move grid r c num")
    case (Inl e)
    then show ?thesis using is_valid_move_no_error [OF _ rc Inl] by auto
  next
    case (Inr b)
    show ?thesis
    proof (cases b)
      case False
      with Inr IH show ?thesis by simp
    next
      case True
      have v: "is_valid_move grid r c num = Inr True" using Inr True by simp
      show ?thesis
      proof (cases "set_cell grid r c num")
        case (Inl e)
        with v show ?thesis using set_cell_no_error [OF _ rc Inl] by auto
      next
        case (Inr grid1)
        have "count_empty grid = Suc (count_empty grid1)"
          using count_empty_set_cell [OF Cons.prems(1-3) Inr] valid_move_nonzero [OF Cons.prems(3) v] .
        then have "count_empty grid1 < n" using Cons.prems(4) by simp
        from rec [OF this, of "stats + 1"] obtain x where
          x: "solve_sudoku n grid1 (stats + 1) = Some x" and
          xr: "grid9 grid1 \<longrightarrow> (\<exists>t. x = Inr t)" by blast
        show ?thesis
        proof (cases x)
          case (Inl e)
          with v Inr x xr show ?thesis using set_cell_keeps_grid9 [OF _ rc Inr] by auto
        next
          case res: (Inr t)
          obtain b' grid2 stats2 where t: "t = (b', grid2, stats2)" by (cases t)
          show ?thesis
          proof (cases b')
            case True
            with v Inr x res t show ?thesis by auto
          next
            case False
            have "solve_sudoku n grid1 (stats + 1) = Some (Inr (False, grid2, stats2))"
              using x res t False by simp
            then have "grid2 = grid1" by (rule solve_sudoku_revert)
            then have "set_cell grid2 r c 0 = Inr grid"
              using set_cell_undo [OF Cons.prems(3) Inr] by simp
            with v Inr x res t False IH show ?thesis by simp
          qed
        qed
      qed
    qed
  qed
qed

lemma find_empty_in_no_error:
  "grid9 g \<Longrightarrow> \<forall>(r, c) \<in> set cs. r < 9 \<and> c < 9 \<Longrightarrow> find_empty_in g cs = Inl e \<Longrightarrow> False"
  by (induction g cs rule: find_empty_in.induct) (auto simp: get_cell_grid9 split: if_splits)

lemma find_empty_no_error: "grid9 g \<Longrightarrow> find_empty g = Inl e \<Longrightarrow> False"
  unfolding find_empty_def by (rule find_empty_in_no_error [of g cells]) (auto simp: set_cells)

lemma solve_sudoku_depth:
  "count_empty grid < n \<Longrightarrow>
   \<exists>x. solve_sudoku n grid stats = Some x \<and> (grid9 grid \<longrightarrow> (\<exists>t. x = Inr t))"
proof (induction n arbitrary: grid stats)
  case 0
  then show ?case by simp
next
  case (Suc n)
  show ?case
  proof (cases "find_empty grid")
    case (Inl e)
    then show ?thesis using find_empty_no_error [OF _ Inl] by auto
  next
    case (Inr found)
    show ?thesis
    proof (cases found)
      case None
      with Inr show ?thesis by auto
    next
      case (Some cell)
      obtain r c where cell: "cell = (r, c)" by (cases cell)
      have fe: "find_empty grid = Inr (Some (r, c))" using Inr Some cell by simp
      note f = find_empty_Some [OF fe]
      have "\<exists>x. solve_sudoku_loop n r c [1..9] grid stats = Some x \<and>
          (grid9 grid \<longrightarrow> (\<exists>t. x = Inr t))"
        using f Suc.prems by (intro solve_sudoku_loop_depth Suc.IH) simp_all
      with fe show ?thesis by simp
    qed
  qed
qed


lemma solve_sudoku_with_stats_loop_depth:
  assumes rec: "\<And>grid stats g. count_empty grid < n \<Longrightarrow>
      \<exists>x. solve_sudoku_with_stats n grid stats g = Some x \<and> (grid9 grid \<longrightarrow> (\<exists>t. x = Inr t))"
  shows "r < 9 \<Longrightarrow> c < 9 \<Longrightarrow> get_cell grid r c = Inr 0 \<Longrightarrow> count_empty grid \<le> n \<Longrightarrow>
     \<exists>x. solve_sudoku_with_stats_loop n r c nums grid stats g = Some x \<and>
         (grid9 grid \<longrightarrow> (\<exists>t. x = Inr t))"
proof (induction nums arbitrary: stats g)
  case Nil
  then show ?case by auto
next
  case (Cons num nums)
  note IH = Cons.IH [OF Cons.prems]
  note rc = Cons.prems(1,2)
  show ?case
  proof (cases "is_valid_move grid r c num")
    case (Inl e)
    then show ?thesis using is_valid_move_no_error [OF _ rc Inl] by auto
  next
    case (Inr b)
    show ?thesis
    proof (cases b)
      case False
      with Inr IH show ?thesis by simp
    next
      case True
      have v: "is_valid_move grid r c num = Inr True" using Inr True by simp
      show ?thesis
      proof (cases "set_cell grid r c num")
        case (Inl e)
        with v show ?thesis using set_cell_no_error [OF _ rc Inl] by auto
      next
        case (Inr grid1)
        have "count_empty grid = Suc (count_empty grid1)"
          using count_empty_set_cell [OF Cons.prems(1-3) Inr] valid_move_nonzero [OF Cons.prems(3) v] .
        then have "count_empty grid1 < n" using Cons.prems(4) by simp
        from rec [OF this, of "stats + 1" g] obtain x where
          x: "solve_sudoku_with_stats n grid1 (stats + 1) g = Some x" and
          xr: "grid9 grid1 \<longrightarrow> (\<exists>t. x = Inr t)" by blast
        show ?thesis
        proof (cases x)
          case (Inl e)
          with v Inr x xr show ?thesis using set_cell_keeps_grid9 [OF _ rc Inr] by auto
        next
          case res: (Inr t)
          obtain b' grid2 stats2 g2 where t: "t = (b', grid2, stats2, g2)" by (cases t)
          show ?thesis
          proof (cases b')
            case True
            with v Inr x res t show ?thesis by auto
          next
            case False
            have "solve_sudoku_with_stats n grid1 (stats + 1) g = Some (Inr (False, grid2, stats2, g2))"
              using x res t False by simp
            then have "grid2 = grid1" by (rule solve_sudoku_with_stats_revert)
            then have "set_cell grid2 r c 0 = Inr grid"
              using set_cell_undo [OF Cons.prems(3) Inr] by simp
            with v Inr x res t False IH show ?thesis by simp
          qed
        qed
      qed
    qed
  qed
qed

lemma solve_sudoku_with_stats_depth:
  "count_empty grid < n \<Longrightarrow>
   \<exists>x. solve_sudoku_with_stats n grid stats g = Some x \<and> (grid9 grid \<longrightarrow> (\<exists>t. x = Inr t))"
proof (induction n arbitrary: grid stats g)
  case 0
  then show ?case by simp
next
  case (Suc n)
  show ?case
  proof (cases "find_empty grid")
    case (Inl e)
    then show ?thesis using find_empty_no_error [OF _ Inl] by auto
  next
    case (Inr found)
    show ?thesis
    proof (cases found)
      case None
      with Inr show ?thesis by auto
    next
      case (Some cell)
      obtain r c where cell: "cell = (r, c)" by (cases cell)
      have fe: "find_empty grid = Inr (Some (r, c))" using Inr Some cell by simp
      note f = find_empty_Some [OF fe]
      obtain nums g1 where rs: "random_sample g = (nums, g1)" by (cases "random_sample g")
      have "\<exists>x. solve_sudoku_with_stats_loop n r c nums grid stats g1 = Some x \<and>
          (grid9 grid \<longrightarrow> (\<exists>t. x = Inr t))"
        using f Suc.prems by (intro solve_sudoku_with_stats_loop_depth Suc.IH) simp_all
      with fe rs show ?thesis by simp
    qed
  qed
qed

lemma count_solutions_loop_depth:
  assumes rec: "\<And>grid. count_empty grid < n \<Longrightarrow>
      \<exists>x. count_solutions n grid limit = Some x \<and> (grid9 grid \<longrightarrow> (\<exists>t. x = Inr t))"
  shows "r < 9 \<Longrightarrow> c < 9 \<Longrightarrow> get_cell grid r c = Inr 0 \<Longrightarrow> count_empty grid \<le> n \<Longrightarrow>
     \<exists>x. count_solutions_loop n r c nums grid limit count = Some x \<and>
         (grid9 grid \<longrightarrow> (\<exists>t. x = Inr t))"
proof (induction nums arbitrary: count)
  case Nil
  then show ?case by auto
next
  case (Cons num nums)
  note IH = Cons.IH [OF Cons.prems]
  note rc = Cons.prems(1,2)
  show ?case
  proof (cases "is_valid_move grid r c num")
    case (Inl e)
    then show ?thesis using is_valid_move_no_error [OF _ rc Inl] by auto
  next
    case (Inr b)
    show ?thesis
    proof (cases b)
      case False
      with Inr IH show ?thesis by simp
    next
      case True
      have v: "is_valid_move grid r c num = Inr True" using Inr True by simp
      show ?thesis
      proof (cases "set_cell grid r c num")
        case (Inl e)
        with v show ?thesis using set_cell_no_error [OF _ rc Inl] by auto
      next
        case (Inr grid1)
        have "count_empty grid = Suc (count_empty grid1)"
          using count_empty_set_cell [OF Cons.prems(1-3) Inr] valid_move_nonzero [OF Cons.prems(3) v] .
        then have "count_empty grid1 < n" using Cons.prems(4) by simp
        from rec [OF this] obtain x where
          x: "count_solutions n grid1 limit = Some x" and
          xr: "grid9 grid1 \<longrightarrow> (\<exists>t. x = Inr t)" by blast
        show ?thesis
        proof (cases x)
          case (Inl e)
          with v Inr x xr show ?thesis using set_cell_keeps_grid9 [OF _ rc Inr] by auto
        next
          case res: (Inr t)
          obtain k grid2 where t: "t = (k, grid2)" by (cases t)
          have "count_solutions n grid1 limit = Some (Inr (k, grid2))"
            using x res t by simp
          then have "grid2 = grid1" by (rule count_solutions_revert)
          then have "set_cell grid2 r c 0 = Inr grid"
            using set_cell_undo [OF Cons.prems(3) Inr] by simp
          with v Inr x res t IH [of "count + k"] show ?thesis by auto
        qed
      qed
    qed
  qed
qed

lemma count_solutions_depth:
  "count_empty grid < n \<Longrightarrow>
   \<exists>x. count_solutions n grid limit = Some x \<and> (grid9 grid \<longrightarrow> (\<exists>t. x = Inr t))"
proof (induction n arbitrary: grid)
  case 0
  then show ?case by simp
next
  case (Suc n)
  show ?case
  proof (cases "find_empty grid")
    case (Inl e)
    then show ?thesis using find_empty_no_error [OF _ Inl] by auto
  next
    case (Inr found)
    show ?thesis
    proof (cases found)
      case None
      with Inr show ?thesis by auto
    next
      case (Some cell)
      obtain r c where cell: "cell = (r, c)" by (cases cell)
      have fe: "find_empty grid = Inr (Some (r, c))" using Inr Some cell by simp
      note f = find_empty_Some [OF fe]
      have "\<exists>x. count_solutions_loop n r c [1..9] grid limit 0 = Some x \<and>
          (grid9 grid \<longrightarrow> (\<exists>t. x = Inr t))"
        using f Suc.prems by (intro count_solutions_loop_depth Suc.IH) simp_all
      with fe show ?thesis by simp
    qed
  qed
qed


section \<open>specs\<close>

lemma find_empty_in_None:
  "grid9 g \<Longrightarrow> \<forall>(r, c) \<in> set cs. r < 9 \<and> c < 9 \<Longrightarrow> find_empty_in g cs = Inr None \<Longrightarrow>
     (r, c) \<in> set cs \<Longrightarrow> g ! r ! c \<noteq> 0"
  by (induction g cs rule: find_empty_in.induct) (auto simp: get_cell_grid9 split: if_splits)

lemma find_empty_None: "grid9 g \<Longrightarrow> find_empty g = Inr None \<Longrightarrow> complete g"
  unfolding complete_def find_empty_def
  using find_empty_in_None [of g cells] by (auto simp: set_cells)

lemma find_empty_Some_grid9:
  "grid9 g \<Longrightarrow> find_empty g = Inr (Some (r, c)) \<Longrightarrow> r < 9 \<and> c < 9 \<and> g ! r ! c = 0"
  using find_empty_Some [of g r c] by (auto simp: get_cell_grid9)

lemma count_empty_place:
  assumes "grid9 g" "r < 9" "c < 9" "g ! r ! c = 0" "v \<noteq> 0"
  shows "count_empty g = Suc (count_empty (place g r c v))"
  by (rule count_empty_set_cell [OF assms(2,3) _ _ assms(5)])
     (use assms in \<open>simp_all add: get_cell_grid9 set_cell_grid9\<close>)

lemma place_undo:
  assumes "grid9 g" "r < 9" "c < 9" "g ! r ! c = 0"
  shows "set_cell (place g r c v) r c 0 = Inr g"
  by (rule set_cell_undo [of g r c v]) (use assms in \<open>simp_all add: get_cell_grid9 set_cell_grid9\<close>)

lemma completions_empty_iff: "completions g = {} \<longleftrightarrow> (\<forall>s. \<not> completion g s)"
  by (auto simp: completions_def)

lemma solve_sudoku_loop_spec:
  assumes rec: "\<And>grid stats. grid9 grid \<Longrightarrow> count_empty grid < n \<Longrightarrow>
      \<exists>b g' st'. solve_sudoku n grid stats = Some (Inr (b, g', st')) \<and>
        (if b then completion grid g' else g' = grid \<and> completions grid = {})"
    and g: "grid9 grid" and r: "r < 9" and c: "c < 9" and e: "grid ! r ! c = 0"
    and n: "count_empty grid \<le> n"
  shows "set nums \<subseteq> {1..9} \<Longrightarrow>
     \<exists>b g' st'. solve_sudoku_loop n r c nums grid stats = Some (Inr (b, g', st')) \<and>
       (if b then completion grid g'
        else g' = grid \<and> (\<forall>d \<in> set nums. free grid r c d \<longrightarrow> completions (place grid r c d) = {}))"
proof (induction nums arbitrary: stats)
  case Nil
  then show ?case by auto
next
  case (Cons num nums)
  have num: "1 \<le> num" "num \<le> 9" and nums: "set nums \<subseteq> {1..9}" using Cons.prems by auto
  note IH = Cons.IH [OF nums]
  note v = is_valid_move_grid9 [OF g r c, of num]
  show ?case
  proof (cases "free grid r c num")
    case False
    from IH [of "stats + 1"] obtain b g' st' where
      l: "solve_sudoku_loop n r c nums grid (stats + 1) = Some (Inr (b, g', st'))" and
      p: "if b then completion grid g'
          else g' = grid \<and> (\<forall>d \<in> set nums. free grid r c d \<longrightarrow> completions (place grid r c d) = {})"
      by blast
    have "solve_sudoku_loop n r c (num # nums) grid stats = Some (Inr (b, g', st'))"
      using v False l by simp
    moreover have "if b then completion grid g'
          else g' = grid \<and> (\<forall>d \<in> set (num # nums). free grid r c d \<longrightarrow> completions (place grid r c d) = {})"
      using p False by (cases b) auto
    ultimately show ?thesis by blast
  next
    case True
    let ?g1 = "place grid r c num"
    have s1: "set_cell grid r c num = Inr ?g1" by (rule set_cell_grid9 [OF g r c])
    have g1: "grid9 ?g1" by (rule grid9_place [OF g])
    have "count_empty grid = Suc (count_empty ?g1)"
      using count_empty_place [OF g r c e, of num] num by simp
    then have "count_empty ?g1 < n" using n by simp
    from rec [OF g1 this, of "stats + 1"] obtain b g2 st2 where
      r1: "solve_sudoku n ?g1 (stats + 1) = Some (Inr (b, g2, st2))" and
      p1: "if b then completion ?g1 g2 else g2 = ?g1 \<and> completions ?g1 = {}"
      by blast
    show ?thesis
    proof (cases b)
      case True
      with p1 have "completion ?g1 g2" by simp
      then have "completion grid g2"
        by (rule completion_unplace [OF g r c e num \<open>free grid r c num\<close>])
      moreover have "solve_sudoku_loop n r c (num # nums) grid stats = Some (Inr (True, g2, st2))"
        using v \<open>free grid r c num\<close> s1 r1 True by simp
      ultimately show ?thesis by force
    next
      case False
      with p1 have g2: "g2 = ?g1" and none: "completions ?g1 = {}" by simp_all
      have s3: "set_cell g2 r c 0 = Inr grid" unfolding g2 by (rule place_undo [OF g r c e])
      from IH [of st2] obtain b' g' st' where
        l: "solve_sudoku_loop n r c nums grid st2 = Some (Inr (b', g', st'))" and
        p: "if b' then completion grid g'
            else g' = grid \<and> (\<forall>d \<in> set nums. free grid r c d \<longrightarrow> completions (place grid r c d) = {})"
        by blast
      have "solve_sudoku_loop n r c (num # nums) grid stats = Some (Inr (b', g', st'))"
        using v \<open>free grid r c num\<close> s1 r1 False s3 l by simp
      moreover have "if b' then completion grid g'
            else g' = grid \<and> (\<forall>d \<in> set (num # nums). free grid r c d \<longrightarrow> completions (place grid r c d) = {})"
        using p none by (cases b') auto
      ultimately show ?thesis by blast
    qed
  qed
qed

lemma no_completion_from_digits:
  assumes g: "grid9 grid" and r: "r < 9" and c: "c < 9" and e: "grid ! r ! c = 0"
    and none: "\<forall>d \<in> {1..9}. free grid r c d \<longrightarrow> completions (place grid r c d) = {}"
  shows "completions grid = {}"
proof (rule ccontr)
  assume "completions grid \<noteq> {}"
  then obtain s where s: "completion grid s" by (auto simp: completions_def)
  note f = completion_filled [OF s r c e]
  have "free grid r c (s ! r ! c)" by (rule completion_free [OF g r c e s])
  moreover have "completion (place grid r c (s ! r ! c)) s" by (rule completion_place [OF g r c e s])
  ultimately show False using none f by (auto simp: completions_def)
qed

lemma solve_sudoku_spec:
  "grid9 grid \<Longrightarrow> count_empty grid < n \<Longrightarrow>
     \<exists>b g' st'. solve_sudoku n grid stats = Some (Inr (b, g', st')) \<and>
       (if b then completion grid g' else g' = grid \<and> completions grid = {})"
proof (induction n arbitrary: grid stats)
  case 0
  then show ?case by simp
next
  case (Suc n)
  note g = Suc.prems(1)
  show ?case
  proof (cases "find_empty grid")
    case (Inl e)
    then show ?thesis using find_empty_no_error [OF g Inl] by simp
  next
    case (Inr found)
    show ?thesis
    proof (cases found)
      case None
      have "complete grid" using find_empty_None [OF g] Inr None by simp
      then have "completion grid grid" using completion_complete [OF g] by simp
      then show ?thesis using Inr None by auto
    next
      case (Some cell)
      obtain r c where cell: "cell = (r, c)" by (cases cell)
      have fe: "find_empty grid = Inr (Some (r, c))" using Inr Some cell by simp
      from find_empty_Some_grid9 [OF g fe] have r: "r < 9" and c: "c < 9" and e: "grid ! r ! c = 0"
        by simp_all
      have "\<exists>b g' st'. solve_sudoku_loop n r c [1..9] grid stats = Some (Inr (b, g', st')) \<and>
         (if b then completion grid g'
          else g' = grid \<and> (\<forall>d \<in> set [1..9]. free grid r c d \<longrightarrow> completions (place grid r c d) = {}))"
        using Suc.prems(2) by (intro solve_sudoku_loop_spec [OF Suc.IH g r c e]) auto
      then obtain b g' st' where
        l: "solve_sudoku_loop n r c [1..9] grid stats = Some (Inr (b, g', st'))" and
        p: "if b then completion grid g'
          else g' = grid \<and> (\<forall>d \<in> set [1..9]. free grid r c d \<longrightarrow> completions (place grid r c d) = {})"
        by blast
      have "if b then completion grid g' else g' = grid \<and> completions grid = {}"
      proof (cases b)
        case True
        with p show ?thesis by simp
      next
        case False
        with p have "\<forall>d \<in> {1..9}. free grid r c d \<longrightarrow> completions (place grid r c d) = {}" by simp
        from no_completion_from_digits [OF g r c e this] p False show ?thesis by simp
      qed
      with l fe show ?thesis by simp
    qed
  qed
qed


section \<open>completions in the usual terms\<close>

lemma completion_extends: "completion g s \<Longrightarrow> extends g s"
  unfolding extends_def using completion_fixed by blast

lemma completion_is_complete: "completion g s \<Longrightarrow> complete s"
  unfolding complete_def using completion_nonzero by blast

lemma valid_gridD:
  "valid_grid g \<Longrightarrow> r < 9 \<Longrightarrow> c < 9 \<Longrightarrow> g ! r ! c \<noteq> 0 \<Longrightarrow> unique_at g r c"
  unfolding valid_grid_def by blast

lemma in_rangeD: "in_range g \<Longrightarrow> r < 9 \<Longrightarrow> c < 9 \<Longrightarrow> 0 \<le> g ! r ! c \<and> g ! r ! c \<le> 9"
  unfolding in_range_def by blast

lemma completion_valid:
  assumes v: "valid_grid g" and s: "completion g s"
  shows "valid_grid s"
  unfolding valid_grid_def
proof (intro allI impI)
  fix r c assume r: "r < (9::nat)" and c: "c < (9::nat)"
  show "unique_at s r c"
  proof (cases "g ! r ! c = 0")
    case True
    then show ?thesis using completion_filled [OF s r c] by simp
  next
    case False
    note u = valid_gridD [OF v r c False]
    have src: "s ! r ! c = g ! r ! c" by (rule completion_fixed [OF s r c False])
    show ?thesis
    proof (rule unique_atI)
      fix r' c' assume b: "r' < 9" "c' < 9" and ne: "(r', c') \<noteq> (r, c)"
        and sg: "same_group (r, c) (r', c')"
      show "s ! r' ! c' \<noteq> s ! r ! c"
      proof (cases "g ! r' ! c' = 0")
        case True
        then have "unique_at s r' c'" using completion_filled [OF s b] by simp
        from unique_atD [OF this r c _ same_group_sym [OF sg]] ne show ?thesis by auto
      next
        case False
        then have "s ! r' ! c' = g ! r' ! c'" by (rule completion_fixed [OF s b])
        with unique_atD [OF u b ne sg] src show ?thesis by simp
      qed
    qed
  qed
qed

lemma completion_in_range:
  assumes i: "in_range g" and s: "completion g s"
  shows "in_range s"
  unfolding in_range_def
proof (intro allI impI)
  fix r c assume r: "r < (9::nat)" and c: "c < (9::nat)"
  show "0 \<le> s ! r ! c \<and> s ! r ! c \<le> 9"
    using completion_fixed [OF s r c] completion_filled [OF s r c] in_rangeD [OF i r c]
    by (cases "g ! r ! c = 0") auto
qed

lemma completion_solved:
  "valid_grid g \<Longrightarrow> in_range g \<Longrightarrow> completion g s \<Longrightarrow> solved s \<and> extends g s"
  unfolding solved_def
  using completion_valid completion_in_range completion_grid9 completion_is_complete
    completion_extends by blast

lemma solved_completion:
  assumes s: "solved s" and e: "extends g s"
  shows "completion g s"
proof (rule completionI)
  show "grid9 s" using s by (simp add: solved_def)
next
  fix r c assume "r < (9::nat)" "c < (9::nat)" "g ! r ! c \<noteq> 0"
  then show "s ! r ! c = g ! r ! c" using e unfolding extends_def by blast
next
  fix r c assume r: "r < (9::nat)" and c: "c < (9::nat)"
  have nz: "s ! r ! c \<noteq> 0" using s r c unfolding solved_def complete_def by blast
  have "0 \<le> s ! r ! c \<and> s ! r ! c \<le> 9" using s in_rangeD [OF _ r c] by (simp add: solved_def)
  moreover have "unique_at s r c" using s valid_gridD [OF _ r c nz] by (simp add: solved_def)
  ultimately show "1 \<le> s ! r ! c \<and> s ! r ! c \<le> 9 \<and> unique_at s r c" using nz by simp
qed

lemma completion_iff_solved:
  "valid_grid g \<Longrightarrow> in_range g \<Longrightarrow> completion g s \<longleftrightarrow> solved s \<and> extends g s"
  using completion_solved solved_completion by blast


section \<open>randomized search\<close>

lemma wf_rng_sample:
  "wf_rng g \<Longrightarrow> random_sample g = (nums, g1) \<Longrightarrow> wf_rng g1 \<and> set nums = {1..9} \<and> distinct nums"
  by (auto simp: wf_rng_def random_sample_def)

lemma wf_rng_shuffle:
  "wf_rng g \<Longrightarrow> random_shuffle g = (cs, g1) \<Longrightarrow> wf_rng g1 \<and> set cs = set cells \<and> distinct cs"
  by (auto simp: wf_rng_def random_shuffle_def)

lemma solve_sudoku_with_stats_loop_spec:
  assumes rec: "\<And>grid stats g. grid9 grid \<Longrightarrow> count_empty grid < n \<Longrightarrow> wf_rng g \<Longrightarrow>
      \<exists>b g' st' gg. solve_sudoku_with_stats n grid stats g = Some (Inr (b, g', st', gg)) \<and>
        wf_rng gg \<and> stats \<le> st' \<and>
        (if b then completion grid g' \<and> stats + int (count_empty grid) \<le> st'
         else g' = grid \<and> completions grid = {})"
    and g: "grid9 grid" and r: "r < 9" and c: "c < 9" and e: "grid ! r ! c = 0"
    and n: "count_empty grid \<le> n"
  shows "set nums \<subseteq> {1..9} \<Longrightarrow> wf_rng rg \<Longrightarrow>
     \<exists>b g' st' gg. solve_sudoku_with_stats_loop n r c nums grid stats rg = Some (Inr (b, g', st', gg)) \<and>
       wf_rng gg \<and> stats \<le> st' \<and>
       (if b then completion grid g' \<and> stats + int (count_empty grid) \<le> st'
        else g' = grid \<and> (\<forall>d \<in> set nums. free grid r c d \<longrightarrow> completions (place grid r c d) = {}))"
proof (induction nums arbitrary: stats rg)
  case Nil
  then show ?case by auto
next
  case (Cons num nums)
  have num: "1 \<le> num" "num \<le> 9" and nums: "set nums \<subseteq> {1..9}" using Cons.prems by auto
  note IH = Cons.IH [OF nums]
  note v = is_valid_move_grid9 [OF g r c, of num]
  show ?case
  proof (cases "free grid r c num")
    case False
    from IH [OF Cons.prems(2), of stats] obtain b g' st' gg where
      l: "solve_sudoku_with_stats_loop n r c nums grid stats rg = Some (Inr (b, g', st', gg))" and
      w: "wf_rng gg" "stats \<le> st'" and
      p: "if b then completion grid g' \<and> stats + int (count_empty grid) \<le> st'
          else g' = grid \<and> (\<forall>d \<in> set nums. free grid r c d \<longrightarrow> completions (place grid r c d) = {})"
      by blast
    have "solve_sudoku_with_stats_loop n r c (num # nums) grid stats rg = Some (Inr (b, g', st', gg))"
      using v False l by simp
    moreover have "if b then completion grid g' \<and> stats + int (count_empty grid) \<le> st'
          else g' = grid \<and> (\<forall>d \<in> set (num # nums). free grid r c d \<longrightarrow> completions (place grid r c d) = {})"
      using p False by (cases b) auto
    ultimately show ?thesis using w by blast
  next
    case True
    let ?g1 = "place grid r c num"
    have s1: "set_cell grid r c num = Inr ?g1" by (rule set_cell_grid9 [OF g r c])
    have g1: "grid9 ?g1" by (rule grid9_place [OF g])
    have ce: "count_empty grid = Suc (count_empty ?g1)"
      using count_empty_place [OF g r c e, of num] num by simp
    then have "count_empty ?g1 < n" using n by simp
    from rec [OF g1 this Cons.prems(2), of "stats + 1"] obtain b g2 st2 gg2 where
      r1: "solve_sudoku_with_stats n ?g1 (stats + 1) rg = Some (Inr (b, g2, st2, gg2))" and
      w1: "wf_rng gg2" "stats + 1 \<le> st2" and
      p1: "if b then completion ?g1 g2 \<and> stats + 1 + int (count_empty ?g1) \<le> st2
           else g2 = ?g1 \<and> completions ?g1 = {}"
      by blast
    show ?thesis
    proof (cases b)
      case True
      with p1 have "completion ?g1 g2" and st: "stats + 1 + int (count_empty ?g1) \<le> st2" by simp_all
      then have "completion grid g2"
        using completion_unplace [OF g r c e num \<open>free grid r c num\<close>] by blast
      moreover have "solve_sudoku_with_stats_loop n r c (num # nums) grid stats rg
          = Some (Inr (True, g2, st2, gg2))"
        using v \<open>free grid r c num\<close> s1 r1 True by simp
      moreover have "stats + int (count_empty grid) \<le> st2" using st ce by simp
      ultimately show ?thesis using w1 by force
    next
      case False
      with p1 have g2: "g2 = ?g1" and none: "completions ?g1 = {}" by simp_all
      have s3: "set_cell g2 r c 0 = Inr grid" unfolding g2 by (rule place_undo [OF g r c e])
      from IH [OF w1(1), of st2] obtain b' g' st' gg where
        l: "solve_sudoku_with_stats_loop n r c nums grid st2 gg2 = Some (Inr (b', g', st', gg))" and
        w: "wf_rng gg" "st2 \<le> st'" and
        p: "if b' then completion grid g' \<and> st2 + int (count_empty grid) \<le> st'
            else g' = grid \<and> (\<forall>d \<in> set nums. free grid r c d \<longrightarrow> completions (place grid r c d) = {})"
        by blast
      have "solve_sudoku_with_stats_loop n r c (num # nums) grid stats rg = Some (Inr (b', g', st', gg))"
        using v \<open>free grid r c num\<close> s1 r1 False s3 l by simp
      moreover have "if b' then completion grid g' \<and> stats + int (count_empty grid) \<le> st'
            else g' = grid \<and> (\<forall>d \<in> set (num # nums). free grid r c d \<longrightarrow> completions (place grid r c d) = {})"
        using p none w1(2) by (cases b') auto
      moreover have "stats \<le> st'" using w(2) w1(2) by simp
      ultimately show ?thesis using w(1) by blast
    qed
  qed
qed

lemma solve_sudoku_with_stats_spec:
  "grid9 grid \<Longrightarrow> count_empty grid < n \<Longrightarrow> wf_rng g \<Longrightarrow>
     \<exists>b g' st' gg. solve_sudoku_with_stats n grid stats g = Some (Inr (b, g', st', gg)) \<and>
       wf_rng gg \<and> stats \<le> st' \<and>
       (if b then completion grid g' \<and> stats + int (count_empty grid) \<le> st'
        else g' = grid \<and> completions grid = {})"
proof (induction n arbitrary: grid stats g)
  case 0
  then show ?case by simp
next
  case (Suc n)
  note g = Suc.prems(1)
  show ?case
  proof (cases "find_empty grid")
    case (Inl e)
    then show ?thesis using find_empty_no_error [OF g Inl] by simp
  next
    case (Inr found)
    show ?thesis
    proof (cases found)
      case None
      have cg: "complete grid" using find_empty_None [OF g] Inr None by simp
      then have "completion grid grid" using completion_complete [OF g] by simp
      moreover have "count_empty grid = 0"
        using cg unfolding count_empty_def complete_def
        by (auto simp: filter_empty_conv set_cells get_cell_grid9 [OF g])
      ultimately show ?thesis using Inr None Suc.prems(3) by auto
    next
      case (Some cell)
      obtain r c where cell: "cell = (r, c)" by (cases cell)
      have fe: "find_empty grid = Inr (Some (r, c))" using Inr Some cell by simp
      from find_empty_Some_grid9 [OF g fe] have r: "r < 9" and c: "c < 9" and e: "grid ! r ! c = 0"
        by simp_all
      obtain nums g1 where rs: "random_sample g = (nums, g1)" by (cases "random_sample g")
      from wf_rng_sample [OF Suc.prems(3) rs] have w1: "wf_rng g1" and sn: "set nums = {1..9}"
        by simp_all
      have "\<exists>b g' st' gg. solve_sudoku_with_stats_loop n r c nums grid stats g1 = Some (Inr (b, g', st', gg)) \<and>
         wf_rng gg \<and> stats \<le> st' \<and>
         (if b then completion grid g' \<and> stats + int (count_empty grid) \<le> st'
          else g' = grid \<and> (\<forall>d \<in> set nums. free grid r c d \<longrightarrow> completions (place grid r c d) = {}))"
        using Suc.prems(2) sn w1 by (intro solve_sudoku_with_stats_loop_spec [OF Suc.IH g r c e]) auto
      then obtain b g' st' gg where
        l: "solve_sudoku_with_stats_loop n r c nums grid stats g1 = Some (Inr (b, g', st', gg))" and
        w: "wf_rng gg" "stats \<le> st'" and
        p: "if b then completion grid g' \<and> stats + int (count_empty grid) \<le> st'
          else g' = grid \<and> (\<forall>d \<in> set nums. free grid r c d \<longrightarrow> completions (place grid r c d) = {})"
        by blast
      have "if b then completion grid g' \<and> stats + int (count_empty grid) \<le> st'
            else g' = grid \<and> completions grid = {}"
      proof (cases b)
        case True
        with p show ?thesis by simp
      next
        case False
        with p sn have "\<forall>d \<in> {1..9}. free grid r c d \<longrightarrow> completions (place grid r c d) = {}" by simp
        from no_completion_from_digits [OF g r c e this] p False show ?thesis by simp
      qed
      with l fe rs w show ?thesis by simp
    qed
  qed
qed

lemma is_valid_group_iff: "is_valid_group vs \<longleftrightarrow> distinct (filter (\<lambda>v. v \<noteq> 0) vs)"
  unfolding is_valid_group_def Let_def by (metis distinct_card card_distinct)

lemma distinct_filter_map:
  "distinct xs \<Longrightarrow>
   distinct (filter (\<lambda>v. v \<noteq> 0) (map f xs)) \<longleftrightarrow>
     (\<forall>x \<in> set xs. \<forall>y \<in> set xs. x \<noteq> y \<and> f x \<noteq> (0::int) \<longrightarrow> f x \<noteq> f y)"
proof (induction xs)
  case Nil
  then show ?case by simp
next
  case (Cons a xs)
  then have IH: "distinct (filter (\<lambda>v. v \<noteq> 0) (map f xs)) \<longleftrightarrow>
     (\<forall>x \<in> set xs. \<forall>y \<in> set xs. x \<noteq> y \<and> f x \<noteq> 0 \<longrightarrow> f x \<noteq> f y)"
    and a: "a \<notin> set xs" by simp_all
  show ?case
  proof (cases "f a = 0")
    case True
    then show ?thesis using IH a by auto
  next
    case False
    have "distinct (filter (\<lambda>v. v \<noteq> 0) (map f (a # xs))) \<longleftrightarrow>
       f a \<notin> f ` set xs \<and> distinct (filter (\<lambda>v. v \<noteq> 0) (map f xs))"
      using False by auto
    also have "\<dots> \<longleftrightarrow> (\<forall>y \<in> set xs. f a \<noteq> f y) \<and>
       (\<forall>x \<in> set xs. \<forall>y \<in> set xs. x \<noteq> y \<and> f x \<noteq> 0 \<longrightarrow> f x \<noteq> f y)"
      using IH by auto
    also have "\<dots> \<longleftrightarrow> (\<forall>x \<in> set (a # xs). \<forall>y \<in> set (a # xs). x \<noteq> y \<and> f x \<noteq> 0 \<longrightarrow> f x \<noteq> f y)"
      using False a by (auto; metis)
    finally show ?thesis .
  qed
qed

lemma valid_group_map:
  "distinct xs \<Longrightarrow> is_valid_group (map f xs) \<longleftrightarrow>
     (\<forall>x \<in> set xs. \<forall>y \<in> set xs. x \<noteq> y \<and> f x \<noteq> 0 \<longrightarrow> f x \<noteq> f y)"
  unfolding is_valid_group_iff by (rule distinct_filter_map)

lemma get_cells_grid9:
  "grid9 g \<Longrightarrow> \<forall>(r, c) \<in> set cs. r < 9 \<and> c < 9 \<Longrightarrow>
   get_cells g cs = Inr (map (\<lambda>(r, c). g ! r ! c) cs)"
  by (induction g cs rule: get_cells.induct) (auto simp: get_cell_grid9)

lemma row_as_map: "grid9 g \<Longrightarrow> r < 9 \<Longrightarrow> g ! r = map (\<lambda>c. g ! r ! c) [0..<9]"
  using map_nth [of "g ! r"] grid9_row [of g r] by simp


lemma check_values_ok:
  "grid9 g \<Longrightarrow> \<forall>(r, c) \<in> set cs. r < 9 \<and> c < 9 \<Longrightarrow>
   check_values g cs = Inr () \<longleftrightarrow> (\<forall>(r, c) \<in> set cs. 0 \<le> g ! r ! c \<and> g ! r ! c \<le> 9)"
  by (induction g cs rule: check_values.induct) (auto simp: get_cell_grid9)

lemma check_values_error:
  "grid9 g \<Longrightarrow> \<forall>(r, c) \<in> set cs. r < 9 \<and> c < 9 \<Longrightarrow> check_values g cs = Inl e \<Longrightarrow>
   \<exists>(r, c) \<in> set cs. \<not> (0 \<le> g ! r ! c \<and> g ! r ! c \<le> 9) \<and>
      e = ValueError (InvalidValue (g ! r ! c) (r + 1) (c + 1))"
  by (induction g cs rule: check_values.induct) (auto simp: get_cell_grid9 split: if_splits)

lemma check_rows_ok:
  "grid9 g \<Longrightarrow> \<forall>r \<in> set rs. r < 9 \<Longrightarrow>
   check_rows g rs = Inr () \<longleftrightarrow> (\<forall>r \<in> set rs. is_valid_group (g ! r))"
  by (induction g rs rule: check_rows.induct) (auto simp: get_row_grid9)

lemma check_rows_error:
  "grid9 g \<Longrightarrow> \<forall>r \<in> set rs. r < 9 \<Longrightarrow> check_rows g rs = Inl e \<Longrightarrow>
   \<exists>r \<in> set rs. \<not> is_valid_group (g ! r) \<and> e = ValueError (DuplicateRow (r + 1))"
  by (induction g rs rule: check_rows.induct) (auto simp: get_row_grid9 split: if_splits)

lemma column_cells:
  "grid9 g \<Longrightarrow> c < 9 \<Longrightarrow> get_cells g [(r, c). r \<leftarrow> [0..<9]] = Inr (map (\<lambda>r. g ! r ! c) [0..<9])"
  using get_cells_grid9 [of g "[(r, c). r \<leftarrow> [0..<9]]"] by (simp add: comp_def)

lemma check_columns_ok:
  "grid9 g \<Longrightarrow> \<forall>c \<in> set cs. c < 9 \<Longrightarrow>
   check_columns g cs = Inr () \<longleftrightarrow> (\<forall>c \<in> set cs. is_valid_group (map (\<lambda>r. g ! r ! c) [0..<9]))"
  by (induction g cs rule: check_columns.induct) (auto simp: column_cells)

lemma check_columns_error:
  "grid9 g \<Longrightarrow> \<forall>c \<in> set cs. c < 9 \<Longrightarrow> check_columns g cs = Inl e \<Longrightarrow>
   \<exists>c \<in> set cs. \<not> is_valid_group (map (\<lambda>r. g ! r ! c) [0..<9]) \<and>
      e = ValueError (DuplicateColumn (c + 1))"
  by (induction g cs rule: check_columns.induct) (auto simp: column_cells split: if_splits)

lemma box_cells:
  assumes "grid9 g" "br \<le> 6" "bc \<le> 6"
  shows "get_cells g [(r, c). r \<leftarrow> [br..<br + 3], c \<leftarrow> [bc..<bc + 3]]
     = Inr (map (\<lambda>(r, c). g ! r ! c) [(r, c). r \<leftarrow> [br..<br + 3], c \<leftarrow> [bc..<bc + 3]])"
proof (rule get_cells_grid9 [OF assms(1)])
  show "\<forall>(r, c) \<in> set [(r, c). r \<leftarrow> [br..<br + 3], c \<leftarrow> [bc..<bc + 3]]. r < 9 \<and> c < 9"
    using assms(2,3) by (auto simp: set_pairs)
qed

lemma check_boxes_ok:
  "grid9 g \<Longrightarrow> \<forall>(br, bc) \<in> set bs. br \<le> 6 \<and> bc \<le> 6 \<Longrightarrow>
   check_boxes g bs = Inr () \<longleftrightarrow>
     (\<forall>(br, bc) \<in> set bs. is_valid_group
        (map (\<lambda>(r, c). g ! r ! c) [(r, c). r \<leftarrow> [br..<br + 3], c \<leftarrow> [bc..<bc + 3]]))"
proof (induction g bs rule: check_boxes.induct)
  case (1 grid)
  then show ?case by simp
next
  case (2 grid br bc rest)
  then have b: "br \<le> 6" "bc \<le> 6" by simp_all
  show ?case
    using 2 by (simp add: box_cells [OF "2.prems"(1) b] del: upt_Suc)
qed

lemma check_boxes_error:
  "grid9 g \<Longrightarrow> \<forall>(br, bc) \<in> set bs. br \<le> 6 \<and> bc \<le> 6 \<Longrightarrow> check_boxes g bs = Inl e \<Longrightarrow>
   \<exists>(br, bc) \<in> set bs. \<not> is_valid_group
        (map (\<lambda>(r, c). g ! r ! c) [(r, c). r \<leftarrow> [br..<br + 3], c \<leftarrow> [bc..<bc + 3]]) \<and>
      e = ValueError (DuplicateBox (br + 1) (bc + 1))"
proof (induction g bs rule: check_boxes.induct)
  case (1 grid)
  then show ?case by simp
next
  case (2 grid br bc rest)
  then have b: "br \<le> 6" "bc \<le> 6" by simp_all
  show ?case
    using 2 by (auto simp add: box_cells [OF "2.prems"(1) b] simp del: upt_Suc split: if_splits)
qed


lemma distinct_pairs: "distinct xs \<Longrightarrow> distinct ys \<Longrightarrow> distinct [(r, c). r \<leftarrow> xs, c \<leftarrow> ys]"
  using distinct_product [of xs ys] by (simp add: product_concat_map)

lemma box_origin: "r < 9 \<Longrightarrow> r div 3 * 3 \<in> {0, 3, 6::nat}"
proof -
  assume "r < 9"
  then have "r div 3 < 3" by (intro less_mult_imp_div_less) simp
  then have "r div 3 = 0 \<or> r div 3 = 1 \<or> r div 3 = 2" by linarith
  then show ?thesis by auto
qed

lemma box_range_origin:
  assumes "br \<in> {0, 3, 6::nat}"
  shows "r \<in> set [br..<br + 3] \<longleftrightarrow> r < 9 \<and> r div 3 * 3 = br"
proof -
  have b: "br < 9" "br div 3 * 3 = br" using assms by auto
  have "r \<in> set [br..<br + 3] \<longleftrightarrow> r < 9 \<and> r div 3 = br div 3"
    using box_range [OF b(1), of r] b(2) by simp
  also have "\<dots> \<longleftrightarrow> r < 9 \<and> r div 3 * 3 = br"
    using assms by auto
  finally show ?thesis .
qed

lemma ball_upt: "(\<forall>c \<in> set [0..<n]. P c) \<longleftrightarrow> (\<forall>c<n. P c)"
  by auto

lemma rows_valid_iff:
  assumes g: "grid9 g" and r: "r < 9"
  shows "is_valid_group (g ! r) \<longleftrightarrow>
     (\<forall>c<9. \<forall>c'<9. c \<noteq> c' \<and> g ! r ! c \<noteq> 0 \<longrightarrow> g ! r ! c \<noteq> g ! r ! c')"
proof -
  have "is_valid_group (g ! r) \<longleftrightarrow> is_valid_group (map (\<lambda>c. g ! r ! c) [0..<9])"
    using row_as_map [OF g r] by simp
  also have "\<dots> \<longleftrightarrow> (\<forall>c \<in> set [0..<9]. \<forall>c' \<in> set [0..<9]. c \<noteq> c' \<and> g ! r ! c \<noteq> 0 \<longrightarrow> g ! r ! c \<noteq> g ! r ! c')"
    by (rule valid_group_map) simp
  finally show ?thesis unfolding ball_upt .
qed

lemma columns_valid_iff:
  "is_valid_group (map (\<lambda>r. g ! r ! c) [0..<9]) \<longleftrightarrow>
     (\<forall>r<9. \<forall>r'<9. r \<noteq> r' \<and> g ! r ! c \<noteq> 0 \<longrightarrow> g ! r ! c \<noteq> g ! r' ! c)"
proof -
  have "is_valid_group (map (\<lambda>r. g ! r ! c) [0..<9]) \<longleftrightarrow>
     (\<forall>r \<in> set [0..<9]. \<forall>r' \<in> set [0..<9]. r \<noteq> r' \<and> g ! r ! c \<noteq> 0 \<longrightarrow> g ! r ! c \<noteq> g ! r' ! c)"
    by (rule valid_group_map) simp
  then show ?thesis unfolding ball_upt .
qed

lemma boxes_valid_iff:
  assumes br: "br \<in> {0, 3, 6::nat}" and bc: "bc \<in> {0, 3, 6::nat}"
  shows "is_valid_group (map (\<lambda>(r, c). g ! r ! c) [(r, c). r \<leftarrow> [br..<br + 3], c \<leftarrow> [bc..<bc + 3]])
     \<longleftrightarrow> (\<forall>r<9. \<forall>c<9. \<forall>r'<9. \<forall>c'<9.
            r div 3 * 3 = br \<and> c div 3 * 3 = bc \<and> r' div 3 * 3 = br \<and> c' div 3 * 3 = bc \<and>
            (r, c) \<noteq> (r', c') \<and> g ! r ! c \<noteq> 0 \<longrightarrow> g ! r ! c \<noteq> g ! r' ! c')"
    (is "is_valid_group (map ?f ?cs) \<longleftrightarrow> ?R")
proof -
  have m: "(r, c) \<in> set ?cs \<longleftrightarrow> (r < 9 \<and> r div 3 * 3 = br) \<and> (c < 9 \<and> c div 3 * 3 = bc)" for r c
    unfolding set_pairs box_range_origin [OF br] box_range_origin [OF bc] ..
  have "is_valid_group (map ?f ?cs) \<longleftrightarrow>
      (\<forall>x \<in> set ?cs. \<forall>y \<in> set ?cs. x \<noteq> y \<and> ?f x \<noteq> 0 \<longrightarrow> ?f x \<noteq> ?f y)"
    by (rule valid_group_map) (rule distinct_pairs; simp)
  also have "\<dots> \<longleftrightarrow> ?R"
  proof
    assume L: "\<forall>x \<in> set ?cs. \<forall>y \<in> set ?cs. x \<noteq> y \<and> ?f x \<noteq> 0 \<longrightarrow> ?f x \<noteq> ?f y"
    show ?R
    proof (intro allI impI, elim conjE)
      fix r c r' c'
      assume a: "r < 9" "c < 9" "r' < 9" "c' < 9" "r div 3 * 3 = br" "c div 3 * 3 = bc"
        "r' div 3 * 3 = br" "c' div 3 * 3 = bc" and ne: "(r, c) \<noteq> (r', c')" and nz: "g ! r ! c \<noteq> 0"
      have x: "(r, c) \<in> set ?cs" unfolding m using a by simp
      have y: "(r', c') \<in> set ?cs" unfolding m using a by simp
      have "?f (r, c) \<noteq> ?f (r', c')"
        using L [rule_format, OF x y] ne nz by simp
      then show "g ! r ! c \<noteq> g ! r' ! c'" by simp
    qed
  next
    assume R: ?R
    show "\<forall>x \<in> set ?cs. \<forall>y \<in> set ?cs. x \<noteq> y \<and> ?f x \<noteq> 0 \<longrightarrow> ?f x \<noteq> ?f y"
    proof (intro ballI impI, elim conjE)
      fix x y assume x: "x \<in> set ?cs" and y: "y \<in> set ?cs" and ne: "x \<noteq> y" and nz: "?f x \<noteq> 0"
      obtain r c where xe: "x = (r, c)" by (cases x)
      obtain r' c' where ye: "y = (r', c')" by (cases y)
      from x have a: "r < 9" "c < 9" "r div 3 * 3 = br" "c div 3 * 3 = bc"
        unfolding xe m by simp_all
      from y have b: "r' < 9" "c' < 9" "r' div 3 * 3 = br" "c' div 3 * 3 = bc"
        unfolding ye m by simp_all
      have "(r, c) \<noteq> (r', c')" "g ! r ! c \<noteq> 0" using ne nz xe ye by auto
      then have "g ! r ! c \<noteq> g ! r' ! c'"
        using R [rule_format, OF a(1,2) b(1,2)] a b by simp
      then show "?f x \<noteq> ?f y" by (simp add: xe ye)
    qed
  qed
  finally show ?thesis .
qed


lemma valid_grid_rows:
  assumes v: "valid_grid g" and b: "r < 9" "c < 9" "c' < 9" and ne: "c \<noteq> c'" and nz: "g ! r ! c \<noteq> 0"
  shows "g ! r ! c \<noteq> g ! r ! c'"
proof -
  have "same_group (r, c) (r, c')" by (simp add: same_group_def)
  from unique_atD [OF valid_gridD [OF v b(1,2) nz] b(1,3) _ this] ne show ?thesis by auto
qed

lemma valid_grid_columns:
  assumes v: "valid_grid g" and b: "r < 9" "c < 9" "r' < 9" and ne: "r \<noteq> r'" and nz: "g ! r ! c \<noteq> 0"
  shows "g ! r ! c \<noteq> g ! r' ! c"
proof -
  have "same_group (r, c) (r', c)" by (simp add: same_group_def)
  from unique_atD [OF valid_gridD [OF v b(1,2) nz] b(3,2) _ this] ne show ?thesis by auto
qed

lemma valid_grid_boxes:
  assumes v: "valid_grid g" and b: "r < 9" "c < 9" "r' < 9" "c' < 9"
    and bx: "r div 3 * 3 = r' div 3 * 3" "c div 3 * 3 = c' div 3 * 3"
    and ne: "(r, c) \<noteq> (r', c')" and nz: "g ! r ! c \<noteq> 0"
  shows "g ! r ! c \<noteq> g ! r' ! c'"
proof -
  have "same_group (r, c) (r', c')" using bx by (simp add: same_group_def)
  from unique_atD [OF valid_gridD [OF v b(1,2) nz] b(3,4) _ this] ne show ?thesis by auto
qed

lemma box_origins: "set [(br, bc). br \<leftarrow> [0, 3, 6], bc \<leftarrow> [0, 3, 6]] = {0, 3, 6::nat} \<times> {0, 3, 6::nat}"
  by auto

lemma valid_grid_groups:
  assumes g: "grid9 g"
  shows "valid_grid g \<longleftrightarrow>
     (\<forall>r<9. is_valid_group (g ! r)) \<and>
     (\<forall>c<9. is_valid_group (map (\<lambda>r. g ! r ! c) [0..<9])) \<and>
     (\<forall>(br, bc) \<in> set [(br, bc). br \<leftarrow> [0, 3, 6], bc \<leftarrow> [0, 3, 6]].
        is_valid_group (map (\<lambda>(r, c). g ! r ! c) [(r, c). r \<leftarrow> [br..<br + 3], c \<leftarrow> [bc..<bc + 3]]))"
    (is "_ \<longleftrightarrow> ?R \<and> ?C \<and> ?B")
proof
  assume v: "valid_grid g"
  have ?R
  proof (intro allI impI)
    fix r :: nat assume r: "r < 9"
    show "is_valid_group (g ! r)"
      unfolding rows_valid_iff [OF g r]
    proof (intro allI impI, elim conjE)
      fix c c' :: nat assume "c < 9" "c' < 9" "c \<noteq> c'" "g ! r ! c \<noteq> 0"
      then show "g ! r ! c \<noteq> g ! r ! c'" by (intro valid_grid_rows [OF v r])
    qed
  qed
  moreover have ?C
  proof (intro allI impI)
    fix c :: nat assume c: "c < 9"
    show "is_valid_group (map (\<lambda>r. g ! r ! c) [0..<9])"
      unfolding columns_valid_iff
    proof (intro allI impI, elim conjE)
      fix r r' :: nat assume "r < 9" "r' < 9" "r \<noteq> r'" "g ! r ! c \<noteq> 0"
      then show "g ! r ! c \<noteq> g ! r' ! c" using c by (intro valid_grid_columns [OF v])
    qed
  qed
  moreover have ?B
  proof (intro ballI, clarify)
    fix br bc :: nat
    assume "(br, bc) \<in> set [(br, bc). br \<leftarrow> [0, 3, 6], bc \<leftarrow> [0, 3, 6]]"
    then have o: "br \<in> {0, 3, 6}" "bc \<in> {0, 3, 6}" unfolding box_origins by auto
    show "is_valid_group (map (\<lambda>(r, c). g ! r ! c) [(r, c). r \<leftarrow> [br..<br + 3], c \<leftarrow> [bc..<bc + 3]])"
      unfolding boxes_valid_iff [OF o]
    proof (intro allI impI, elim conjE)
      fix r c r' c'
      assume "r < 9" "c < 9" "r' < 9" "c' < 9" "r div 3 * 3 = br" "c div 3 * 3 = bc"
        "r' div 3 * 3 = br" "c' div 3 * 3 = bc" "(r, c) \<noteq> (r', c')" "g ! r ! c \<noteq> 0"
      then show "g ! r ! c \<noteq> g ! r' ! c'"
        by (intro valid_grid_boxes [OF v]) simp_all
    qed
  qed
  ultimately show "?R \<and> ?C \<and> ?B" by blast
next
  assume a: "?R \<and> ?C \<and> ?B"
  show "valid_grid g"
    unfolding valid_grid_def
  proof (intro allI impI)
    fix r c assume r: "r < (9::nat)" and c: "c < (9::nat)" and nz: "g ! r ! c \<noteq> 0"
    show "unique_at g r c"
    proof (rule unique_atI)
      fix r' c' assume b: "r' < 9" "c' < 9" and ne: "(r', c') \<noteq> (r, c)"
        and sg: "same_group (r, c) (r', c')"
      from sg consider "r = r'" | "c = c'" | "r div 3 = r' div 3" "c div 3 = c' div 3"
        unfolding same_group_def by auto
      then show "g ! r' ! c' \<noteq> g ! r ! c"
      proof cases
        case 1
        have "is_valid_group (g ! r)" using a r by blast
        from this [unfolded rows_valid_iff [OF g r], rule_format, OF c b(2)] 1 ne nz
        show ?thesis by auto
      next
        case 2
        have "is_valid_group (map (\<lambda>r. g ! r ! c) [0..<9])" using a c by blast
        from this [unfolded columns_valid_iff, rule_format, OF r b(1)] 2 ne nz
        show ?thesis by auto
      next
        case 3
        let ?br = "r div 3 * 3" and ?bc = "c div 3 * 3"
        have o: "?br \<in> {0, 3, 6}" "?bc \<in> {0, 3, 6}" using box_origin r c by blast+
        then have "(?br, ?bc) \<in> set [(br, bc). br \<leftarrow> [0, 3, 6], bc \<leftarrow> [0, 3, 6]]"
          unfolding box_origins by blast
        with a have "is_valid_group (map (\<lambda>(r, c). g ! r ! c)
            [(r, c). r \<leftarrow> [?br..<?br + 3], c \<leftarrow> [?bc..<?bc + 3]])"
          by blast
        from this [unfolded boxes_valid_iff [OF o], rule_format, OF r c b] 3 ne nz
        show ?thesis by auto
      qed
    qed
  qed
qed


lemma in_range_cells: "in_range g \<longleftrightarrow> (\<forall>(r, c) \<in> set cells. 0 \<le> g ! r ! c \<and> g ! r ! c \<le> 9)"
  unfolding in_range_def set_cells by auto

lemma check_values_cells: "grid9 g \<Longrightarrow> check_values g cells = Inr () \<longleftrightarrow> in_range g"
  unfolding in_range_cells by (rule check_values_ok) (auto simp: set_cells)

lemma box_origins_bound:
  "\<forall>(br, bc) \<in> set [(br, bc). br \<leftarrow> [0, 3, 6::nat], bc \<leftarrow> [0, 3, 6::nat]]. br \<le> 6 \<and> bc \<le> 6"
  by auto

lemma validate_grid_ok:
  assumes g: "grid9 g"
  shows "validate_grid g = Inr () \<longleftrightarrow> in_range g \<and> valid_grid g"
proof -
  have rows: "check_rows g [0..<9] = Inr () \<longleftrightarrow> (\<forall>r<9. is_valid_group (g ! r))"
    using check_rows_ok [OF g, of "[0..<9]"] unfolding ball_upt by simp
  have cols: "check_columns g [0..<9] = Inr () \<longleftrightarrow>
      (\<forall>c<9. is_valid_group (map (\<lambda>r. g ! r ! c) [0..<9]))"
    using check_columns_ok [OF g, of "[0..<9]"] unfolding ball_upt by simp
  note boxes = check_boxes_ok [OF g box_origins_bound]
  show ?thesis
  proof (cases "check_values g cells")
    case (Inl e)
    then show ?thesis using check_values_cells [OF g] by (simp add: validate_grid_def)
  next
    case v: (Inr u)
    then have i: "in_range g" using check_values_cells [OF g] by simp
    show ?thesis
    proof (cases "check_rows g [0..<9]")
      case (Inl e)
      then show ?thesis using v rows valid_grid_groups [OF g] by (simp add: validate_grid_def)
    next
      case r: (Inr u1)
      show ?thesis
      proof (cases "check_columns g [0..<9]")
        case (Inl e)
        then show ?thesis using v r cols valid_grid_groups [OF g] by (simp add: validate_grid_def)
      next
        case c: (Inr u2)
        have "validate_grid g = check_boxes g [(br, bc). br \<leftarrow> [0, 3, 6], bc \<leftarrow> [0, 3, 6]]"
          using v r c by (simp add: validate_grid_def)
        then show ?thesis
          unfolding valid_grid_groups [OF g] using i r c rows cols boxes by simp
      qed
    qed
  qed
qed

lemma validate_grid_range_error:
  assumes g: "grid9 g" and n: "\<not> in_range g"
  shows "\<exists>r<9. \<exists>c<9. \<not> (0 \<le> g ! r ! c \<and> g ! r ! c \<le> 9) \<and>
     validate_grid g = Inl (ValueError (InvalidValue (g ! r ! c) (r + 1) (c + 1)))"
proof -
  from n check_values_cells [OF g] obtain e where e: "check_values g cells = Inl e"
    by (cases "check_values g cells") auto
  have "\<exists>(r, c) \<in> set cells. \<not> (0 \<le> g ! r ! c \<and> g ! r ! c \<le> 9) \<and>
      e = ValueError (InvalidValue (g ! r ! c) (r + 1) (c + 1))"
    by (rule check_values_error [OF g _ e]) (auto simp: set_cells)
  then obtain r c where "(r, c) \<in> set cells" "\<not> (0 \<le> g ! r ! c \<and> g ! r ! c \<le> 9)"
    "e = ValueError (InvalidValue (g ! r ! c) (r + 1) (c + 1))" by blast
  then show ?thesis using e by (auto simp: set_cells validate_grid_def)
qed

lemma validate_grid_duplicate_error:
  assumes g: "grid9 g" and i: "in_range g" and n: "\<not> valid_grid g"
  shows "(\<exists>r<9. \<not> is_valid_group (g ! r) \<and> validate_grid g = Inl (ValueError (DuplicateRow (r + 1)))) \<or>
     (\<exists>c<9. \<not> is_valid_group (map (\<lambda>r. g ! r ! c) [0..<9]) \<and>
         validate_grid g = Inl (ValueError (DuplicateColumn (c + 1)))) \<or>
     (\<exists>br \<in> {0, 3, 6}. \<exists>bc \<in> {0, 3, 6}.
         \<not> is_valid_group (map (\<lambda>(r, c). g ! r ! c) [(r, c). r \<leftarrow> [br..<br + 3], c \<leftarrow> [bc..<bc + 3]]) \<and>
         validate_grid g = Inl (ValueError (DuplicateBox (br + 1) (bc + 1))))"
proof -
  obtain u where v: "check_values g cells = Inr u" using check_values_cells [OF g] i by simp
  show ?thesis
  proof (cases "check_rows g [0..<9]")
    case (Inl e)
    from check_rows_error [OF g _ Inl] obtain r where
      "r < 9" "\<not> is_valid_group (g ! r)" "e = ValueError (DuplicateRow (r + 1))" by auto
    then show ?thesis using v Inl by (auto simp: validate_grid_def)
  next
    case r: (Inr u1)
    show ?thesis
    proof (cases "check_columns g [0..<9]")
      case (Inl e)
      from check_columns_error [OF g _ Inl] obtain c where
        "c < 9" "\<not> is_valid_group (map (\<lambda>r. g ! r ! c) [0..<9])"
        "e = ValueError (DuplicateColumn (c + 1))" by auto
      then show ?thesis using v r Inl by (auto simp: validate_grid_def)
    next
      case c: (Inr u2)
      have vb: "validate_grid g = check_boxes g [(br, bc). br \<leftarrow> [0, 3, 6], bc \<leftarrow> [0, 3, 6]]"
        using v r c by (simp add: validate_grid_def)
      have "validate_grid g \<noteq> Inr ()" using validate_grid_ok [OF g] n by simp
      then obtain e where e: "check_boxes g [(br, bc). br \<leftarrow> [0, 3, 6], bc \<leftarrow> [0, 3, 6]] = Inl e"
        unfolding vb by (cases "check_boxes g [(br, bc). br \<leftarrow> [0, 3, 6], bc \<leftarrow> [0, 3, 6]]") auto
      from check_boxes_error [OF g box_origins_bound e] obtain br bc where
        m: "(br, bc) \<in> set [(br, bc). br \<leftarrow> [0, 3, 6], bc \<leftarrow> [0, 3, 6]]" and
        nv: "\<not> is_valid_group (map (\<lambda>(r, c). g ! r ! c) [(r, c). r \<leftarrow> [br..<br + 3], c \<leftarrow> [bc..<bc + 3]])" and
        ee: "e = ValueError (DuplicateBox (br + 1) (bc + 1))" by blast
      from m have o: "br \<in> {0, 3, 6}" "bc \<in> {0, 3, 6}" unfolding box_origins by auto
      have "validate_grid g = Inl (ValueError (DuplicateBox (br + 1) (bc + 1)))"
        using vb e ee by simp
      with nv o show ?thesis by (intro disjI2 bexI [of _ br] bexI [of _ bc] conjI)
    qed
  qed
qed

lemma solved_check:
  "grid9 s \<Longrightarrow> validate_grid s = Inr () \<Longrightarrow> find_empty s = Inr None \<Longrightarrow> solved s"
  unfolding solved_def using validate_grid_ok find_empty_None by blast

lemma grid9_solved_example: "grid9 solved_example"
  by (simp add: grid9_def solved_example_def)

lemma solved_solved_example: "solved solved_example"
proof (rule solved_check [OF grid9_solved_example])
  show "validate_grid solved_example = Inr ()" by code_simp
  show "find_empty solved_example = Inr None" by code_simp
qed

lemma grid9_empty: "grid9 (replicate 9 (replicate 9 0))"
  by (simp add: grid9_def)

lemma empty_nth: "r < 9 \<Longrightarrow> c < 9 \<Longrightarrow> replicate 9 (replicate 9 (0::int)) ! r ! c = 0"
  by simp

lemma valid_grid_empty: "valid_grid (replicate 9 (replicate 9 0))"
  unfolding valid_grid_def using empty_nth by blast

lemma in_range_empty: "in_range (replicate 9 (replicate 9 0))"
  unfolding in_range_def using empty_nth by simp

lemma extends_empty: "extends (replicate 9 (replicate 9 0)) s"
  unfolding extends_def using empty_nth by blast

lemma completions_empty_grid: "completions (replicate 9 (replicate 9 0)) \<noteq> {}"
  using solved_completion [OF solved_solved_example extends_empty]
  by (auto simp: completions_def)

lemma generate_full_grid_spec:
  assumes w: "wf_rng g" and d: "81 < depth"
  shows "\<exists>full g'. generate_full_grid depth g = Some (Inr (full, g')) \<and> solved full \<and> wf_rng g'"
proof -
  let ?e = "replicate 9 (replicate 9 (0::int))"
  have "count_empty ?e < depth" using count_empty_le [of ?e] d by simp
  from solve_sudoku_with_stats_spec [OF grid9_empty this w, of 0] obtain b g' st' gg where
    r: "solve_sudoku_with_stats depth ?e 0 g = Some (Inr (b, g', st', gg))" and
    w': "wf_rng gg" and
    p: "if b then completion ?e g' \<and> 0 + int (count_empty ?e) \<le> st'
        else g' = ?e \<and> completions ?e = {}"
    by blast
  have b using p completions_empty_grid by (cases b) auto
  with p have "completion ?e g'" by simp
  then have "solved g'" using completion_solved [OF valid_grid_empty in_range_empty] by blast
  moreover have "generate_full_grid depth g = Some (Inr (g', gg))"
    using r by (simp add: generate_full_grid_def)
  ultimately show ?thesis using w' by blast
qed


lemma digits_1_9: "set [1, 2, 3, 4, 5, 6, 7, 8, 9] = {1..9::int}"
  using set_upto [of 1 9] unfolding upto_1_9 .

lemma digits_9_1: "set [9, 8, 7, 6, 5, 4, 3, 2, 1] = {1..9::int}"
  using digits_1_9 by auto

lemma wf_ascending_rng: "wf_rng ascending_rng"
  unfolding wf_rng_def ascending_rng_def by (simp only: rng.simps digits_1_9 distinct_cells) simp

lemma wf_descending_rng: "wf_rng descending_rng"
  unfolding wf_rng_def descending_rng_def by (simp only: rng.simps digits_9_1 distinct_cells) simp

section \<open>Claims\<close>

text \<open>
  Claim C10: whenever \<open>count_solutions\<close> returns, for any grid, limit and depth budget,
  the grid it leaves behind equals the grid it was given; this includes the early return
  taken once the running count has reached the limit.
\<close>

theorem count_solutions_restores_grid:
  "count_solutions n grid limit = Some (Inr (k, g')) \<Longrightarrow> g' = grid"
  by (rule count_solutions_revert)

theorem count_solutions_restores_grid_witness:
  "count_solutions 2 one_empty_example 2 = Some (Inr (1, one_empty_example))"
proof -
  have e: "count_solutions 2 one_empty_example 2 =
     Some (Inr (1, [[0, 3, 4, 6, 7, 8, 9, 1, 2],
      [6, 7, 2, 1, 9, 5, 3, 4, 8],
      [1, 9, 8, 3, 4, 2, 5, 6, 7],
      [8, 5, 9, 7, 6, 1, 4, 2, 3],
      [4, 2, 6, 8, 5, 3, 7, 9, 1],
      [7, 1, 3, 9, 2, 4, 8, 5, 6],
      [9, 6, 1, 5, 3, 7, 2, 8, 4],
      [2, 8, 7, 4, 1, 9, 6, 3, 5],
      [3, 4, 5, 2, 8, 6, 1, 7, 9]]))"
    by code_simp
  from count_solutions_restores_grid [OF e] e show ?thesis by simp
qed


text \<open>
  Claim C9: every search terminates. A placement fills a cell that was empty, so a depth
  budget above the number of empty cells (at most 81) is never exhausted, by any of the
  three searches, on any grid and for any outcome of the randomness source; on a 9x9 grid
  the search then returns normally, without an exception.
\<close>

theorem searches_terminate:
  "count_empty grid \<le> 81 \<and>
   (count_empty grid < n \<longrightarrow>
     (\<exists>x. solve_sudoku n grid stats = Some x \<and> (grid9 grid \<longrightarrow> (\<exists>t. x = Inr t))) \<and>
     (\<exists>x. solve_sudoku_with_stats n grid stats g = Some x \<and> (grid9 grid \<longrightarrow> (\<exists>t. x = Inr t))) \<and>
     (\<exists>x. count_solutions n grid limit = Some x \<and> (grid9 grid \<longrightarrow> (\<exists>t. x = Inr t))))"
  using count_empty_le [of grid] solve_sudoku_depth [of grid n stats]
    solve_sudoku_with_stats_depth [of grid n stats g] count_solutions_depth [of grid n limit]
  by blast

theorem searches_terminate_witness:
  "count_empty one_empty_example < 2 \<and> grid9 one_empty_example \<and>
   (\<exists>t. solve_sudoku 2 one_empty_example 0 = Some (Inr t)) \<and>
   (\<exists>t. solve_sudoku_with_stats 2 one_empty_example 0 ascending_rng = Some (Inr t)) \<and>
   (\<exists>t. count_solutions 2 one_empty_example 2 = Some (Inr t))"
proof -
  have h1: "count_empty one_empty_example < 2" by code_simp
  have h2: "grid9 one_empty_example"
    by (simp add: grid9_def one_empty_example_def solved_example_def place_def)
  show ?thesis
    using searches_terminate [of one_empty_example 2 0 ascending_rng 2] h1 h2 by auto
qed


text \<open>
  Claim C3: when \<open>solve_sudoku\<close> returns false, the grid it leaves is the grid it was
  given, cell for cell (for any grid). On a 9x9 grid, with a depth budget above the number
  of empty cells, it returns; false means that no completion exists, and on true the grid
  holds a completion of the input: complete, equal to the input on its filled cells, every
  placed digit 1 to 9 and unique in its row, column and box, and valid if the input was.
\<close>

theorem solve_sudoku_outcome:
  "(solve_sudoku n grid stats = Some (Inr (False, g', st')) \<longrightarrow> g' = grid) \<and>
   (grid9 grid \<and> count_empty grid < n \<longrightarrow>
      (\<exists>b g2 st2. solve_sudoku n grid stats = Some (Inr (b, g2, st2)) \<and>
         (\<not> b \<longrightarrow> g2 = grid \<and> completions grid = {}) \<and>
         (b \<longrightarrow> completion grid g2 \<and> grid9 g2 \<and> complete g2 \<and> extends grid g2 \<and>
               (valid_grid grid \<longrightarrow> valid_grid g2))))"
proof (intro conjI impI)
  assume "solve_sudoku n grid stats = Some (Inr (False, g', st'))"
  then show "g' = grid" by (rule solve_sudoku_revert)
next
  assume a: "grid9 grid \<and> count_empty grid < n"
  then obtain b g2 st2 where
    r: "solve_sudoku n grid stats = Some (Inr (b, g2, st2))" and
    p: "if b then completion grid g2 else g2 = grid \<and> completions grid = {}"
    using solve_sudoku_spec [of grid n stats] by blast
  have "b \<longrightarrow> completion grid g2 \<and> grid9 g2 \<and> complete g2 \<and> extends grid g2 \<and>
               (valid_grid grid \<longrightarrow> valid_grid g2)"
    using p completion_grid9 completion_is_complete completion_extends completion_valid
    by (cases b) auto
  moreover have "\<not> b \<longrightarrow> g2 = grid \<and> completions grid = {}" using p by (cases b) auto
  ultimately show "\<exists>b g2 st2. solve_sudoku n grid stats = Some (Inr (b, g2, st2)) \<and>
         (\<not> b \<longrightarrow> g2 = grid \<and> completions grid = {}) \<and>
         (b \<longrightarrow> completion grid g2 \<and> grid9 g2 \<and> complete g2 \<and> extends grid g2 \<and>
               (valid_grid grid \<longrightarrow> valid_grid g2))"
    using r by blast
qed

theorem solve_sudoku_outcome_witness:
  "solve_sudoku 2 unsolvable_example 0 = Some (Inr (False, unsolvable_example, 9)) \<and>
   grid9 one_empty_example \<and> count_empty one_empty_example < 2 \<and>
   solve_sudoku 2 one_empty_example 0 = Some (Inr (True, solved_example, 5)) \<and>
   completion one_empty_example solved_example \<and> complete solved_example"
proof -
  have u: "solve_sudoku 2 unsolvable_example 0 =
      Some (Inr (False, [[0, 5, 4, 6, 7, 8, 9, 1, 2],
      [6, 7, 2, 1, 9, 5, 3, 4, 8],
      [1, 9, 8, 3, 4, 2, 5, 6, 7],
      [8, 5, 9, 7, 6, 1, 4, 2, 3],
      [4, 2, 6, 8, 5, 3, 7, 9, 1],
      [7, 1, 3, 9, 2, 4, 8, 5, 6],
      [9, 6, 1, 5, 3, 7, 2, 8, 4],
      [2, 8, 7, 4, 1, 9, 6, 3, 5],
      [3, 4, 5, 2, 8, 6, 1, 7, 9]], 9))"
    by code_simp
  have h1: "count_empty one_empty_example < 2" by code_simp
  have h2: "grid9 one_empty_example"
    by (simp add: grid9_def one_empty_example_def solved_example_def place_def)
  have e: "solve_sudoku 2 one_empty_example 0 = Some (Inr (True, solved_example, 5))"
    by code_simp
  from solve_sudoku_outcome [of 2 unsolvable_example 0 _ 9] u
  have 1: "solve_sudoku 2 unsolvable_example 0 = Some (Inr (False, unsolvable_example, 9))"
    by simp
  from solve_sudoku_outcome [of 2 one_empty_example 0] h1 h2 e
  have 2: "completion one_empty_example solved_example \<and> complete solved_example" by auto
  from 1 2 h1 h2 e show ?thesis by simp
qed


text \<open>
  Claim C4: on a 9x9 grid \<open>validate_grid\<close> raises no error exactly when every value lies in
  0..9 and no two equal non-zero digits share a row, column or box. A value out of range is
  reported first, with the value and the 1-based row and column of a cell that holds it;
  otherwise a duplicate is reported with the 1-based row, column or box origin of a group
  that holds two equal non-zero digits.
\<close>

theorem validate_grid_raises_iff:
  assumes "grid9 g"
  shows "(validate_grid g = Inr () \<longleftrightarrow> in_range g \<and> valid_grid g) \<and>
    (\<not> in_range g \<longrightarrow>
       (\<exists>r<9. \<exists>c<9. \<not> (0 \<le> g ! r ! c \<and> g ! r ! c \<le> 9) \<and>
          validate_grid g = Inl (ValueError (InvalidValue (g ! r ! c) (r + 1) (c + 1))))) \<and>
    (in_range g \<and> \<not> valid_grid g \<longrightarrow>
       (\<exists>r<9. validate_grid g = Inl (ValueError (DuplicateRow (r + 1))) \<and>
          (\<exists>c<9. \<exists>c'<9. c \<noteq> c' \<and> g ! r ! c \<noteq> 0 \<and> g ! r ! c = g ! r ! c')) \<or>
       (\<exists>c<9. validate_grid g = Inl (ValueError (DuplicateColumn (c + 1))) \<and>
          (\<exists>r<9. \<exists>r'<9. r \<noteq> r' \<and> g ! r ! c \<noteq> 0 \<and> g ! r ! c = g ! r' ! c)) \<or>
       (\<exists>br \<in> {0, 3, 6}. \<exists>bc \<in> {0, 3, 6}.
          validate_grid g = Inl (ValueError (DuplicateBox (br + 1) (bc + 1))) \<and>
          (\<exists>r<9. \<exists>c<9. \<exists>r'<9. \<exists>c'<9.
              r div 3 * 3 = br \<and> c div 3 * 3 = bc \<and> r' div 3 * 3 = br \<and> c' div 3 * 3 = bc \<and>
              (r, c) \<noteq> (r', c') \<and> g ! r ! c \<noteq> 0 \<and> g ! r ! c = g ! r' ! c')))"
proof (intro conjI impI)
  show "validate_grid g = Inr () \<longleftrightarrow> in_range g \<and> valid_grid g"
    by (rule validate_grid_ok [OF assms])
next
  assume "\<not> in_range g"
  then show "\<exists>r<9. \<exists>c<9. \<not> (0 \<le> g ! r ! c \<and> g ! r ! c \<le> 9) \<and>
          validate_grid g = Inl (ValueError (InvalidValue (g ! r ! c) (r + 1) (c + 1)))"
    by (rule validate_grid_range_error [OF assms])
next
  assume a: "in_range g \<and> \<not> valid_grid g"
  from validate_grid_duplicate_error [OF assms] a consider
    (row) r where "r < 9" "\<not> is_valid_group (g ! r)"
      "validate_grid g = Inl (ValueError (DuplicateRow (r + 1)))"
  | (col) c where "c < 9" "\<not> is_valid_group (map (\<lambda>r. g ! r ! c) [0..<9])"
      "validate_grid g = Inl (ValueError (DuplicateColumn (c + 1)))"
  | (box) br bc where "br \<in> {0, 3, 6}" "bc \<in> {0, 3, 6}"
      "\<not> is_valid_group (map (\<lambda>(r, c). g ! r ! c) [(r, c). r \<leftarrow> [br..<br + 3], c \<leftarrow> [bc..<bc + 3]])"
      "validate_grid g = Inl (ValueError (DuplicateBox (br + 1) (bc + 1)))"
    by blast
  then show "(\<exists>r<9. validate_grid g = Inl (ValueError (DuplicateRow (r + 1))) \<and>
          (\<exists>c<9. \<exists>c'<9. c \<noteq> c' \<and> g ! r ! c \<noteq> 0 \<and> g ! r ! c = g ! r ! c')) \<or>
       (\<exists>c<9. validate_grid g = Inl (ValueError (DuplicateColumn (c + 1))) \<and>
          (\<exists>r<9. \<exists>r'<9. r \<noteq> r' \<and> g ! r ! c \<noteq> 0 \<and> g ! r ! c = g ! r' ! c)) \<or>
       (\<exists>br \<in> {0, 3, 6}. \<exists>bc \<in> {0, 3, 6}.
          validate_grid g = Inl (ValueError (DuplicateBox (br + 1) (bc + 1))) \<and>
          (\<exists>r<9. \<exists>c<9. \<exists>r'<9. \<exists>c'<9.
              r div 3 * 3 = br \<and> c div 3 * 3 = bc \<and> r' div 3 * 3 = br \<and> c' div 3 * 3 = bc \<and>
              (r, c) \<noteq> (r', c') \<and> g ! r ! c \<noteq> 0 \<and> g ! r ! c = g ! r' ! c'))"
  proof cases
    case row
    from row(2) have "\<exists>c<9. \<exists>c'<9. c \<noteq> c' \<and> g ! r ! c \<noteq> 0 \<and> g ! r ! c = g ! r ! c'"
      unfolding rows_valid_iff [OF assms row(1)] by simp
    with row(1,3) show ?thesis by (intro disjI1) blast
  next
    case col
    from col(2) have "\<exists>r<9. \<exists>r'<9. r \<noteq> r' \<and> g ! r ! c \<noteq> 0 \<and> g ! r ! c = g ! r' ! c"
      unfolding columns_valid_iff by simp
    with col(1,3) show ?thesis by (intro disjI2 disjI1) blast
  next
    case box
    from box(3) have "\<exists>r<9. \<exists>c<9. \<exists>r'<9. \<exists>c'<9.
              r div 3 * 3 = br \<and> c div 3 * 3 = bc \<and> r' div 3 * 3 = br \<and> c' div 3 * 3 = bc \<and>
              (r, c) \<noteq> (r', c') \<and> g ! r ! c \<noteq> 0 \<and> g ! r ! c = g ! r' ! c'"
      unfolding boxes_valid_iff [OF box(1,2)] by simp
    with box(1,2,4) show ?thesis by (intro disjI2 bexI [of _ br] bexI [of _ bc] conjI)
  qed
qed

theorem validate_grid_raises_iff_witness:
  "grid9 solved_example \<and> validate_grid solved_example = Inr () \<and>
   in_range solved_example \<and> valid_grid solved_example \<and>
   grid9 unsolvable_example \<and> validate_grid unsolvable_example = Inl (ValueError (DuplicateColumn 2)) \<and>
   \<not> (in_range unsolvable_example \<and> valid_grid unsolvable_example) \<and>
   grid9 (place solved_example 0 0 10) \<and>
   validate_grid (place solved_example 0 0 10) = Inl (ValueError (InvalidValue 10 1 1)) \<and>
   \<not> (in_range (place solved_example 0 0 10) \<and> valid_grid (place solved_example 0 0 10))"
proof -
  have g1: "grid9 solved_example" by (simp add: grid9_def solved_example_def)
  have g2: "grid9 unsolvable_example"
    by (simp add: grid9_def unsolvable_example_def one_empty_example_def solved_example_def place_def)
  have g3: "grid9 (place solved_example 0 0 10)"
    by (simp add: grid9_def solved_example_def place_def)
  have v1: "validate_grid solved_example = Inr ()" by code_simp
  have v2: "validate_grid unsolvable_example = Inl (ValueError (DuplicateColumn 2))" by code_simp
  have v3: "validate_grid (place solved_example 0 0 10) = Inl (ValueError (InvalidValue 10 1 1))"
    by code_simp
  from validate_grid_raises_iff [OF g1] v1
  have 1: "in_range solved_example \<and> valid_grid solved_example" by simp
  from validate_grid_raises_iff [OF g2] v2
  have 2: "\<not> (in_range unsolvable_example \<and> valid_grid unsolvable_example)" by simp
  from validate_grid_raises_iff [OF g3] v3
  have 3: "\<not> (in_range (place solved_example 0 0 10) \<and> valid_grid (place solved_example 0 0 10))"
    by simp
  from g1 g2 g3 v1 v2 v3 1 2 3 show ?thesis by simp
qed


text \<open>
  Claim C7: for every outcome of the randomness source (every sample a permutation of the
  digits 1 to 9), and a depth budget of at least 82 frames, \<open>generate_full_grid\<close> returns
  a 9x9 grid that is complete (no cell is 0, every value in 1..9) and valid (no two equal
  digits share a row, column or box).
\<close>

theorem generate_full_grid_solved:
  assumes "wf_rng g" and "81 < depth"
  shows "\<exists>full g'. generate_full_grid depth g = Some (Inr (full, g')) \<and>
     grid9 full \<and> complete full \<and> valid_grid full \<and> in_range full"
  using generate_full_grid_spec [OF assms] unfolding solved_def by blast

theorem generate_full_grid_solved_witness:
  "wf_rng ascending_rng \<and> (81::nat) < 82 \<and>
   (\<exists>full g'. generate_full_grid 82 ascending_rng = Some (Inr (full, g')) \<and>
     grid9 full \<and> complete full \<and> valid_grid full \<and> in_range full)"
proof -
  have h: "(81::nat) < 82" by simp
  from generate_full_grid_solved [OF wf_ascending_rng h] wf_ascending_rng h
  show ?thesis by blast
qed

end
